theory Spec2Isabelle
  imports Complex_Main "HOL-Library.AList"
begin

section \<open>Python values and dictionaries\<close>

text \<open>
  The segments handled by \<^verbatim>\<open>align_transcription_with_speakers\<close> are Python dictionaries
  (\<^verbatim>\<open>List[Dict[str, Any]]\<close>). A dictionary is an association list in insertion order;
  a value is one of the JSON-like Python values the two services return. A number is a
  Python float, given by its value. Comparison, \<^verbatim>\<open>min\<close> and \<^verbatim>\<open>max\<close> of two floats are exact;
  their subtraction rounds, and is not the subtraction of the reals. The float subtraction
  is therefore a parameter \<open>fsub\<close> of the model of the aligner, and every statement about
  the aligner holds for every \<open>fsub\<close>.
\<close>

datatype pyval =
    PNone
  | PBool bool
  | PNum real
  | PStr string
  | PList "pyval list"

type_synonym pydict = "(string \<times> pyval) list"

datatype py_error = KeyError string | TypeError

text \<open>\<^verbatim>\<open>d[k]\<close>: raises KeyError when the key is absent.\<close>

definition getitem :: "pydict \<Rightarrow> string \<Rightarrow> py_error + pyval" where
  "getitem d k = (case map_of d k of None \<Rightarrow> Inl (KeyError k) | Some v \<Rightarrow> Inr v)"

text \<open>The numeric reading of a value; Python's \<^verbatim>\<open>bool\<close> is a subtype of \<^verbatim>\<open>int\<close>.\<close>

fun as_num :: "pyval \<Rightarrow> real option" where
  "as_num (PNum r) = Some r"
| "as_num (PBool b) = Some (if b then 1 else 0)"
| "as_num _ = None"

text \<open>Truthiness, as tested by \<^verbatim>\<open>best_speaker if best_speaker else "UNKNOWN"\<close>.\<close>

fun truthy :: "pyval \<Rightarrow> bool" where
  "truthy PNone = False"
| "truthy (PBool b) = b"
| "truthy (PNum r) = (r \<noteq> 0)"
| "truthy (PStr s) = (s \<noteq> [])"
| "truthy (PList vs) = (vs \<noteq> [])"

section \<open>The aligner\<close>

text \<open>
  Lines 219-221 of \<^verbatim>\<open>transcribeWithSpeakers.py\<close>:
  \<^verbatim>\<open>overlap = max(0, min(trans_end, speaker_end) - max(trans_start, speaker_start))\<close>.
  With four numbers this is the formula, the subtraction being the one of floats; if one
  of the four operands is not a number, \<^verbatim>\<open>max\<close>, \<^verbatim>\<open>min\<close> or the subtraction raises
  TypeError (two strings or two lists compare, but do not subtract).
\<close>

definition overlap ::
  "(real \<Rightarrow> real \<Rightarrow> real) \<Rightarrow> pyval \<Rightarrow> pyval \<Rightarrow> pyval \<Rightarrow> pyval \<Rightarrow> py_error + real" where
  "overlap fsub trans_start trans_end speaker_start speaker_end =
     (case (as_num trans_start, as_num trans_end, as_num speaker_start, as_num speaker_end) of
        (Some ts, Some te, Some ss, Some se) \<Rightarrow> Inr (max 0 (fsub (min te se) (max ts ss)))
      | _ \<Rightarrow> Inl TypeError)"

text \<open>
  The inner loop (lines 214-225) over the speaker segments, on the pair
  \<^verbatim>\<open>(best_speaker, best_overlap)\<close>. The key \<^verbatim>\<open>"speaker"\<close> is read only when the
  overlap beats the best one so far.
\<close>

fun best_speaker_loop ::
  "(real \<Rightarrow> real \<Rightarrow> real) \<Rightarrow> pyval \<Rightarrow> pyval \<Rightarrow> pydict list \<Rightarrow> pyval \<times> real
     \<Rightarrow> py_error + (pyval \<times> real)" where
  "best_speaker_loop fsub trans_start trans_end [] best = Inr best"
| "best_speaker_loop fsub trans_start trans_end (speaker_seg # rest) (best_speaker, best_overlap) =
     (case getitem speaker_seg ''start'' of
        Inl e \<Rightarrow> Inl e
      | Inr speaker_start \<Rightarrow>
     (case getitem speaker_seg ''end'' of
        Inl e \<Rightarrow> Inl e
      | Inr speaker_end \<Rightarrow>
     (case overlap fsub trans_start trans_end speaker_start speaker_end of
        Inl e \<Rightarrow> Inl e
      | Inr ov \<Rightarrow>
          if ov > best_overlap then
            (case getitem speaker_seg ''speaker'' of
               Inl e \<Rightarrow> Inl e
             | Inr sp \<Rightarrow> best_speaker_loop fsub trans_start trans_end rest (sp, ov))
          else best_speaker_loop fsub trans_start trans_end rest (best_speaker, best_overlap))))"

text \<open>The label written at line 230.\<close>

definition speaker_label :: "pyval \<Rightarrow> pyval" where
  "speaker_label best_speaker = (if truthy best_speaker then best_speaker else PStr ''UNKNOWN'')"

text \<open>
  One iteration of the outer loop (lines 206-232). \<^verbatim>\<open>{**trans_seg, "speaker": v}\<close> keeps
  the entries of \<^verbatim>\<open>trans_seg\<close> in order and sets the key \<^verbatim>\<open>"speaker"\<close>: in place when the
  key is there already, at the end otherwise.
\<close>

definition align_segment ::
  "(real \<Rightarrow> real \<Rightarrow> real) \<Rightarrow> pydict \<Rightarrow> pydict list \<Rightarrow> py_error + pydict" where
  "align_segment fsub trans_seg speaker_segments =
     (case getitem trans_seg ''start'' of
        Inl e \<Rightarrow> Inl e
      | Inr trans_start \<Rightarrow>
     (case getitem trans_seg ''end'' of
        Inl e \<Rightarrow> Inl e
      | Inr trans_end \<Rightarrow>
     (case best_speaker_loop fsub trans_start trans_end speaker_segments (PNone, 0) of
        Inl e \<Rightarrow> Inl e
      | Inr (best_speaker, best_overlap) \<Rightarrow>
          Inr (AList.update ''speaker'' (speaker_label best_speaker) trans_seg))))"

text \<open>The outer loop: the first exception ends the call.\<close>

fun align_transcription_with_speakers ::
  "(real \<Rightarrow> real \<Rightarrow> real) \<Rightarrow> pydict list \<Rightarrow> pydict list \<Rightarrow> py_error + pydict list" where
  "align_transcription_with_speakers fsub [] speaker_segments = Inr []"
| "align_transcription_with_speakers fsub (trans_seg # rest) speaker_segments =
     (case align_segment fsub trans_seg speaker_segments of
        Inl e \<Rightarrow> Inl e
      | Inr aligned_seg \<Rightarrow>
     (case align_transcription_with_speakers fsub rest speaker_segments of
        Inl e \<Rightarrow> Inl e
      | Inr aligned_segments \<Rightarrow> Inr (aligned_seg # aligned_segments)))"

subsection \<open>Segments of the data model\<close>

text \<open>
  A time interval has numeric \<^verbatim>\<open>start\<close> and \<^verbatim>\<open>end\<close>; a speaker segment has a
  \<^verbatim>\<open>speaker\<close> entry as well. \<open>seg_overlap\<close> is the overlap of two intervals as the
  specification writes it, \<open>max(0, min(tEnd, sEnd) - max(tStart, sStart))\<close>, computed in
  floats.
\<close>

definition num_field :: "pydict \<Rightarrow> string \<Rightarrow> real option" where
  "num_field d k = (case map_of d k of None \<Rightarrow> None | Some v \<Rightarrow> as_num v)"

definition is_interval :: "pydict \<Rightarrow> bool" where
  "is_interval d = (num_field d ''start'' \<noteq> None \<and> num_field d ''end'' \<noteq> None)"

definition is_speaker_segment :: "pydict \<Rightarrow> bool" where
  "is_speaker_segment d = (is_interval d \<and> map_of d ''speaker'' \<noteq> None)"

definition seg_start :: "pydict \<Rightarrow> real" where
  "seg_start d = (case num_field d ''start'' of Some r \<Rightarrow> r | None \<Rightarrow> 0)"

definition seg_end :: "pydict \<Rightarrow> real" where
  "seg_end d = (case num_field d ''end'' of Some r \<Rightarrow> r | None \<Rightarrow> 0)"

definition seg_speaker :: "pydict \<Rightarrow> pyval" where
  "seg_speaker d = (case map_of d ''speaker'' of Some v \<Rightarrow> v | None \<Rightarrow> PNone)"

definition seg_overlap :: "(real \<Rightarrow> real \<Rightarrow> real) \<Rightarrow> pydict \<Rightarrow> pydict \<Rightarrow> real" where
  "seg_overlap fsub t s =
     max 0 (fsub (min (seg_end t) (seg_end s)) (max (seg_start t) (seg_start s)))"


text \<open>
  \<open>first_max fsub t ss w\<close>: \<open>w\<close> is the first speaker segment of \<open>ss\<close>, in input order,
  whose computed overlap with \<open>t\<close> is the greatest of the list.
\<close>

definition first_max ::
  "(real \<Rightarrow> real \<Rightarrow> real) \<Rightarrow> pydict \<Rightarrow> pydict list \<Rightarrow> pydict \<Rightarrow> bool" where
  "first_max fsub t ss w =
     (\<exists>pre post. ss = pre @ w # post
        \<and> (\<forall>s\<in>set pre. seg_overlap fsub t s < seg_overlap fsub t w)
        \<and> (\<forall>s\<in>set post. seg_overlap fsub t s \<le> seg_overlap fsub t w))"

subsection \<open>Segments as the two services produce them\<close>

text \<open>
  The dictionary built for each diarization turn (lines 189-194), and a transcription
  segment with the leading fields of lines 151-156.
\<close>

definition speaker_segment :: "string \<Rightarrow> real \<Rightarrow> real \<Rightarrow> pydict" where
  "speaker_segment speaker turn_start turn_end =
     [(''speaker'', PStr speaker), (''start'', PNum turn_start), (''end'', PNum turn_end),
      (''duration'', PNum (turn_end - turn_start))]"

definition transcript_segment :: "real \<Rightarrow> real \<Rightarrow> real \<Rightarrow> string \<Rightarrow> pydict" where
  "transcript_segment seg_id seg_start' seg_end' seg_text =
     [(''id'', PNum seg_id), (''seek'', PNum 0), (''start'', PNum seg_start'),
      (''end'', PNum seg_end'), (''text'', PStr seg_text)]"

text \<open>
  Float subtraction is exact whenever the difference of the operands is a float, as it is
  for the small integers of the examples below; the examples are run with it.
\<close>

definition exact_sub :: "real \<Rightarrow> real \<Rightarrow> real" where
  "exact_sub a b = a - b"

section \<open>The mixed-content extractor\<close>

text \<open>
  \<^verbatim>\<open>parse_mixed_json_and_text\<close> of \<^verbatim>\<open>format_output.py\<close>. A Python string is modelled as a
  list of characters with code points below 256. The JSON library is not part of the
  repository: \<^verbatim>\<open>json.loads\<close> and \<^verbatim>\<open>json.dumps\<close> are parameters \<open>loads\<close> and \<open>dumps\<close> of
  the model. A call of \<open>loads\<close> returns a value or raises; the handlers of the source
  catch \<^verbatim>\<open>json.JSONDecodeError\<close> and nothing else, so any other exception leaves the
  function.
\<close>

datatype exn = JSONDecodeError | OtherException

datatype 'j chunk = Text string | Json 'j

subsection \<open>Strings\<close>

text \<open>\<^verbatim>\<open>str.isspace\<close> on one character, which is also the class \<^verbatim>\<open>\s\<close> of \<^verbatim>\<open>re\<close>.\<close>

definition is_space :: "char \<Rightarrow> bool" where
  "is_space c = (c \<in> set [CHR 0x09, CHR 0x0A, CHR 0x0B, CHR 0x0C, CHR 0x0D, CHR 0x1C,
                           CHR 0x1D, CHR 0x1E, CHR 0x1F, CHR 0x20, CHR 0x85, CHR 0xA0])"

definition lstrip :: "string \<Rightarrow> string" where
  "lstrip s = dropWhile is_space s"

definition strip :: "string \<Rightarrow> string" where
  "strip s = rev (lstrip (rev (lstrip s)))"

text \<open>\<^verbatim>\<open>s[a:b]\<close> for indices \<open>0 \<le> a\<close>, \<open>0 \<le> b\<close>; empty when \<open>b \<le> a\<close>.\<close>

definition slice :: "nat \<Rightarrow> nat \<Rightarrow> string \<Rightarrow> string" where
  "slice a b s = take (b - a) (drop a s)"

text \<open>\<^verbatim>\<open>sep.join(parts)\<close>.\<close>

fun join :: "string \<Rightarrow> string list \<Rightarrow> string" where
  "join sep [] = []"
| "join sep [p] = p"
| "join sep (p # q # ps) = p @ sep @ join sep (q # ps)"

subsection \<open>The fenced-block pattern\<close>

text \<open>
  The pattern of line 68, compiled with \<^verbatim>\<open>re.DOTALL\<close>, is
  \<^verbatim>\<open>```(?:json)?\s*(\{.*?\}|\[.*?\])\s*```\<close>.
  \<open>lazy_body close s\<close> is the backtracking of \<^verbatim>\<open>.*?\<close> followed by the closing bracket,
  \<^verbatim>\<open>\s*\<close> and the closing fence: the shortest body is tried first, and a closing bracket
  that is not followed by optional whitespace and a fence becomes part of the body. It
  returns the body and what follows the match. Greedy \<^verbatim>\<open>\s*\<close> never has to give back a
  character, because what must follow it (a bracket, a backquote) is not whitespace.
\<close>

fun lazy_body :: "char \<Rightarrow> string \<Rightarrow> (string \<times> string) option" where
  "lazy_body close [] = None"
| "lazy_body close (c # s) =
     (if c = close \<and> take 3 (lstrip s) = ''```'' then Some ([], drop 3 (lstrip s))
      else (case lazy_body close s of
              None \<Rightarrow> None
            | Some (body, rest) \<Rightarrow> Some (c # body, rest)))"

text \<open>
  A match of the pattern at the head of \<open>s\<close>: group 1 and the rest of \<open>s\<close> after the match.
  When the optional \<^verbatim>\<open>json\<close> is there, the attempt without it fails at the letter \<^verbatim>\<open>j\<close>.
\<close>

definition match_markdown :: "string \<Rightarrow> (string \<times> string) option" where
  "match_markdown s =
     (if take 3 s = ''```'' then
        (let after_fence = drop 3 s;
             after_tag = (if take 4 after_fence = ''json'' then drop 4 after_fence else after_fence)
         in case lstrip after_tag of
              [] \<Rightarrow> None
            | c # s' \<Rightarrow>
                if c = CHR ''{'' then
                  (case lazy_body (CHR ''}'') s' of
                     None \<Rightarrow> None
                   | Some (body, rest) \<Rightarrow> Some (c # body @ ''}'', rest))
                else if c = CHR ''['' then
                  (case lazy_body (CHR '']'') s' of
                     None \<Rightarrow> None
                   | Some (body, rest) \<Rightarrow> Some (c # body @ '']'', rest))
                else None)
      else None)"

lemma lazy_body_shorter: "lazy_body close s = Some (body, rest) \<Longrightarrow> length rest < length s"
proof (induction s arbitrary: body)
  case Nil
  then show ?case by simp
next
  case (Cons c s)
  show ?case
  proof (cases "c = close \<and> take 3 (lstrip s) = ''```''")
    case True
    with Cons.prems have "rest = drop 3 (lstrip s)" by simp
    moreover have "length (lstrip s) \<le> length s"
      unfolding lstrip_def by (rule length_dropWhile_le)
    ultimately show ?thesis by simp
  next
    case False
    with Cons.prems obtain body' where "lazy_body close s = Some (body', rest)"
      by (auto split: option.splits)
    from Cons.IH [OF this] show ?thesis by simp
  qed
qed

lemma match_markdown_shorter: "match_markdown s = Some (g, rest) \<Longrightarrow> length rest < length s"
proof -
  assume m: "match_markdown s = Some (g, rest)"
  then have fence: "take 3 s = ''```''"
    by (simp add: match_markdown_def split: if_splits)
  define after_tag where
    "after_tag = (if take 4 (drop 3 s) = ''json'' then drop 4 (drop 3 s) else drop 3 s)"
  have le: "length (lstrip after_tag) \<le> length s"
    unfolding lstrip_def after_tag_def
    by (rule order_trans [OF length_dropWhile_le]) simp
  from m fence obtain c s' body where c: "lstrip after_tag = c # s'"
    and b: "lazy_body (CHR ''}'') s' = Some (body, rest) \<or> lazy_body (CHR '']'') s' = Some (body, rest)"
    unfolding match_markdown_def after_tag_def Let_def
    by (auto split: list.splits if_splits option.splits)
  from b have "length rest < length s'" using lazy_body_shorter by blast
  with c le show ?thesis by simp
qed

text \<open>
  \<^verbatim>\<open>list(re.finditer(markdown_pattern, text, re.DOTALL))\<close>: the matches from left to right,
  without overlap, each as \<open>(match.start(), match.end(), match.group(1))\<close>. \<open>pos\<close> is the
  index in \<open>text\<close> of the head of \<open>s\<close>.
\<close>

function finditer_from :: "nat \<Rightarrow> string \<Rightarrow> (nat \<times> nat \<times> string) list" where
  "finditer_from pos s =
     (case match_markdown s of
        Some (g, rest) \<Rightarrow>
          (pos, pos + (length s - length rest), g)
            # finditer_from (pos + (length s - length rest)) rest
      | None \<Rightarrow> (case s of [] \<Rightarrow> [] | c # s' \<Rightarrow> finditer_from (Suc pos) s'))"
  by pat_completeness auto
termination
  by (relation "measure (\<lambda>(pos, s). length s)") (auto dest: match_markdown_shorter)

declare finditer_from.simps [simp del]

definition finditer :: "string \<Rightarrow> (nat \<times> nat \<times> string) list" where
  "finditer text = finditer_from 0 text"

subsection \<open>The three strategies\<close>

text \<open>
  The loop of lines 72-91 over the matches, with \<open>last_end\<close>, returning \<open>result_parts\<close>.
  An entry is tagged \<open>Json\<close> when it is the value parsed at line 81 (the source appends
  its \<^verbatim>\<open>json.dumps\<close>), \<open>Text\<close> otherwise.
\<close>

fun markdown_parts ::
  "(string \<Rightarrow> exn + 'j) \<Rightarrow> string \<Rightarrow> (nat \<times> nat \<times> string) list \<Rightarrow> nat \<Rightarrow> exn + 'j chunk list" where
  "markdown_parts loads text [] last_end =
     Inr (if last_end < length text then [Text (strip (drop last_end text))] else [])"
| "markdown_parts loads text ((start, end, json_str) # matches) last_end =
     (let before = (if start > last_end then [Text (strip (slice last_end start text))] else [])
      in case loads json_str of
           Inr parsed \<Rightarrow>
             (case markdown_parts loads text matches end of
                Inl e \<Rightarrow> Inl e
              | Inr parts \<Rightarrow> Inr (before @ Json parsed # parts))
         | Inl JSONDecodeError \<Rightarrow>
             (case markdown_parts loads text matches end of
                Inl e \<Rightarrow> Inl e
              | Inr parts \<Rightarrow> Inr (before @ Text (slice start end text) # parts))
         | Inl OtherException \<Rightarrow> Inl OtherException)"

text \<open>
  The scan of lines 96-114: \<open>i\<close> is the index of the head of the characters still to
  read, \<open>brace_count\<close> and \<open>start_idx\<close> are the two counters of the source (\<open>-1\<close> for
  no start), and the result is \<open>json_objects\<close>.
\<close>

fun brace_scan ::
  "(string \<Rightarrow> exn + 'j) \<Rightarrow> string \<Rightarrow> nat \<Rightarrow> string \<Rightarrow> int \<Rightarrow> int \<Rightarrow> exn + (nat \<times> nat \<times> 'j) list" where
  "brace_scan loads text i [] brace_count start_idx = Inr []"
| "brace_scan loads text i (char # rest) brace_count start_idx =
     (if char = CHR ''{'' then
        brace_scan loads text (i + 1) rest (brace_count + 1)
          (if brace_count = 0 then int i else start_idx)
      else if char = CHR ''}'' then
        (if brace_count - 1 = 0 \<and> start_idx \<noteq> - 1 then
           (case loads (slice (nat start_idx) (i + 1) text) of
              Inr parsed_obj \<Rightarrow>
                (case brace_scan loads text (i + 1) rest 0 (- 1) of
                   Inl e \<Rightarrow> Inl e
                 | Inr json_objects \<Rightarrow> Inr ((nat start_idx, i + 1, parsed_obj) # json_objects))
            | Inl JSONDecodeError \<Rightarrow> brace_scan loads text (i + 1) rest 0 (- 1)
            | Inl OtherException \<Rightarrow> Inl OtherException)
         else brace_scan loads text (i + 1) rest (brace_count - 1) start_idx)
      else brace_scan loads text (i + 1) rest brace_count start_idx)"

text \<open>The loop of lines 118-136 over \<open>json_objects\<close>, returning \<open>result_parts\<close>.\<close>

fun object_parts :: "string \<Rightarrow> (nat \<times> nat \<times> 'j) list \<Rightarrow> nat \<Rightarrow> 'j chunk list" where
  "object_parts text [] last_end =
     (if last_end < length text \<and> strip (drop last_end text) \<noteq> []
      then [Text (strip (drop last_end text))] else [])"
| "object_parts text ((start, end, parsed_obj) # json_objects) last_end =
     (if start > last_end \<and> strip (slice last_end start text) \<noteq> []
      then [Text (strip (slice last_end start text))] else [])
     @ Json parsed_obj # object_parts text json_objects end"

subsection \<open>The function\<close>

text \<open>The string a part stands for in \<open>result_parts\<close>.\<close>

fun render :: "('j \<Rightarrow> string) \<Rightarrow> 'j chunk \<Rightarrow> string" where
  "render dumps (Text s) = s"
| "render dumps (Json v) = dumps v"

definition parse_mixed_json_and_text ::
  "(string \<Rightarrow> exn + 'j) \<Rightarrow> ('j \<Rightarrow> string) \<Rightarrow> string \<Rightarrow> exn + string" where
  "parse_mixed_json_and_text loads dumps raw =
     (let text = strip raw in
      case loads text of
        Inr parsed \<Rightarrow> Inr (dumps parsed)
      | Inl OtherException \<Rightarrow> Inl OtherException
      | Inl JSONDecodeError \<Rightarrow>
          (let markdown_matches = finditer text in
           if markdown_matches \<noteq> [] then
             (case markdown_parts loads text markdown_matches 0 of
                Inl e \<Rightarrow> Inl e
              | Inr result_parts \<Rightarrow>
                  Inr (join [CHR 0x0A, CHR 0x0A]
                        (filter (\<lambda>p. p \<noteq> []) (map (render dumps) result_parts))))
           else
             (case brace_scan loads text 0 text 0 (- 1) of
                Inl e \<Rightarrow> Inl e
              | Inr json_objects \<Rightarrow>
                  if json_objects \<noteq> [] then
                    Inr (join [CHR 0x0A, CHR 0x0A]
                          (map (render dumps) (object_parts text json_objects 0)))
                  else Inr text)))"

text \<open>
  The same function seen as the sequence of chunks of the specification, before they are
  serialised and joined: the value of strategy 1, the non-empty entries of
  \<open>result_parts\<close> in strategies 2 and 3, the text itself in the last case.
\<close>

fun nonempty_chunk :: "'j chunk \<Rightarrow> bool" where
  "nonempty_chunk (Text s) = (s \<noteq> [])"
| "nonempty_chunk (Json v) = True"

definition extract_chunks :: "(string \<Rightarrow> exn + 'j) \<Rightarrow> string \<Rightarrow> exn + 'j chunk list" where
  "extract_chunks loads raw =
     (let text = strip raw in
      case loads text of
        Inr parsed \<Rightarrow> Inr [Json parsed]
      | Inl OtherException \<Rightarrow> Inl OtherException
      | Inl JSONDecodeError \<Rightarrow>
          (let markdown_matches = finditer text in
           if markdown_matches \<noteq> [] then
             (case markdown_parts loads text markdown_matches 0 of
                Inl e \<Rightarrow> Inl e
              | Inr result_parts \<Rightarrow> Inr (filter nonempty_chunk result_parts))
           else
             (case brace_scan loads text 0 text 0 (- 1) of
                Inl e \<Rightarrow> Inl e
              | Inr json_objects \<Rightarrow>
                  if json_objects \<noteq> [] then Inr (object_parts text json_objects 0)
                  else Inr [Text text])))"

section \<open>A reference JSON codec\<close>

text \<open>
  The theorems about the extractor hold for every \<open>loads\<close> and \<open>dumps\<close>. To run the
  extractor on concrete strings, this section gives a decoder and an encoder for a
  subset of JSON, written after the grammar \<^verbatim>\<open>json.loads\<close> accepts and the layout
  \<^verbatim>\<open>json.dumps(v, indent=2, ensure_ascii=False)\<close> prints: objects, arrays, strings without
  escape sequences, integers, \<^verbatim>\<open>true\<close>, \<^verbatim>\<open>false\<close> and \<^verbatim>\<open>null\<close>. Fractions, exponents and
  escape sequences are outside the subset and are rejected; the concrete inputs used
  below do not contain any. As in CPython, an integer literal of more than 4300 digits
  is not a decode error: its conversion raises \<^verbatim>\<open>ValueError\<close>, which is not a
  \<^verbatim>\<open>JSONDecodeError\<close>.
\<close>

datatype json =
    JNull
  | JBool bool
  | JInt int
  | JStr string
  | JArr "json list"
  | JObj "(string \<times> json) list"

definition json_ws :: "char \<Rightarrow> bool" where
  "json_ws c = (c \<in> set [CHR 0x20, CHR 0x09, CHR 0x0A, CHR 0x0D])"

definition skip_ws :: "string \<Rightarrow> string" where
  "skip_ws s = dropWhile json_ws s"

definition is_digit :: "char \<Rightarrow> bool" where
  "is_digit c = (c \<in> set ''0123456789'')"

definition digit_val :: "char \<Rightarrow> int" where
  "digit_val c = int (of_char c) - 48"

text \<open>The characters of a string up to its closing quote.\<close>

fun parse_string_body :: "string \<Rightarrow> (string \<times> string) option" where
  "parse_string_body [] = None"
| "parse_string_body (c # s) =
     (if c = CHR 0x22 then Some ([], s)
      else if c = CHR 0x5C \<or> (of_char c :: nat) < 32 then None
      else (case parse_string_body s of
              None \<Rightarrow> None
            | Some (body, rest) \<Rightarrow> Some (c # body, rest)))"

text \<open>
  An integer: an optional sign, then \<^verbatim>\<open>0\<close> or a digit string without leading zero. The
  limit on the number of digits is the default of \<^verbatim>\<open>sys.int_max_str_digits\<close>.
\<close>

definition int_max_str_digits :: nat where
  "int_max_str_digits = 4300"

definition parse_number :: "string \<Rightarrow> exn + (json \<times> string)" where
  "parse_number s =
     (let negative = (take 1 s = ''-'');
          s1 = (if negative then drop 1 s else s);
          run = takeWhile is_digit s1;
          digits = (if take 1 run = ''0'' then ''0'' else run);
          rest = drop (length digits) s1;
          n = foldl (\<lambda>acc c. 10 * acc + digit_val c) 0 digits
      in if digits = [] \<or> take 1 rest \<in> set [''.'', ''e'', ''E''] then Inl JSONDecodeError
         else if length digits > int_max_str_digits then Inl OtherException
         else Inr (JInt (if negative then - n else n), rest))"

text \<open>A dictionary built from pairs in order: a repeated key keeps its place and takes the last value.\<close>

definition dict_of :: "(string \<times> json) list \<Rightarrow> (string \<times> json) list" where
  "dict_of members = foldl (\<lambda>d (k, v). AList.update k v d) [] members"

text \<open>
  Recursive descent, with a bound on the number of nested calls; running out of it is the
  decoder's \<^verbatim>\<open>RecursionError\<close>. \<open>parse_elements\<close> reads the elements of a non-empty array
  up to its closing bracket, \<open>parse_members\<close> the members of a non-empty object up to its
  closing brace.
\<close>

fun parse_value :: "nat \<Rightarrow> string \<Rightarrow> exn + (json \<times> string)"
  and parse_elements :: "nat \<Rightarrow> string \<Rightarrow> exn + (json list \<times> string)"
  and parse_members :: "nat \<Rightarrow> string \<Rightarrow> exn + ((string \<times> json) list \<times> string)" where
  "parse_value 0 s = Inl OtherException"
| "parse_value (Suc n) s =
     (case s of
        [] \<Rightarrow> Inl JSONDecodeError
      | c # r \<Rightarrow>
          if c = CHR 0x22 then
            (case parse_string_body r of
               None \<Rightarrow> Inl JSONDecodeError
             | Some (body, rest) \<Rightarrow> Inr (JStr body, rest))
          else if c = CHR ''{'' then
            (if take 1 (skip_ws r) = ''}'' then Inr (JObj [], drop 1 (skip_ws r))
             else (case parse_members n (skip_ws r) of
                     Inl e \<Rightarrow> Inl e
                   | Inr (members, rest) \<Rightarrow> Inr (JObj (dict_of members), rest)))
          else if c = CHR ''['' then
            (if take 1 (skip_ws r) = '']'' then Inr (JArr [], drop 1 (skip_ws r))
             else (case parse_elements n (skip_ws r) of
                     Inl e \<Rightarrow> Inl e
                   | Inr (elements, rest) \<Rightarrow> Inr (JArr elements, rest)))
          else if take 4 s = ''null'' then Inr (JNull, drop 4 s)
          else if take 4 s = ''true'' then Inr (JBool True, drop 4 s)
          else if take 5 s = ''false'' then Inr (JBool False, drop 5 s)
          else parse_number s)"
| "parse_elements 0 s = Inl OtherException"
| "parse_elements (Suc n) s =
     (case parse_value n s of
        Inl e \<Rightarrow> Inl e
      | Inr (v, r) \<Rightarrow>
          if take 1 (skip_ws r) = '']'' then Inr ([v], drop 1 (skip_ws r))
          else if take 1 (skip_ws r) = '','' then
            (case parse_elements n (skip_ws (drop 1 (skip_ws r))) of
               Inl e \<Rightarrow> Inl e
             | Inr (vs, rest) \<Rightarrow> Inr (v # vs, rest))
          else Inl JSONDecodeError)"
| "parse_members 0 s = Inl OtherException"
| "parse_members (Suc n) s =
     (if take 1 s \<noteq> [CHR 0x22] then Inl JSONDecodeError
      else (case parse_string_body (drop 1 s) of
              None \<Rightarrow> Inl JSONDecodeError
            | Some (key, r) \<Rightarrow>
                if take 1 (skip_ws r) \<noteq> '':'' then Inl JSONDecodeError
                else (case parse_value n (skip_ws (drop 1 (skip_ws r))) of
                        Inl e \<Rightarrow> Inl e
                      | Inr (v, r') \<Rightarrow>
                          if take 1 (skip_ws r') = ''}'' then Inr ([(key, v)], drop 1 (skip_ws r'))
                          else if take 1 (skip_ws r') = '','' then
                            (case parse_members n (skip_ws (drop 1 (skip_ws r'))) of
                               Inl e \<Rightarrow> Inl e
                             | Inr (members, rest) \<Rightarrow> Inr ((key, v) # members, rest))
                          else Inl JSONDecodeError)))"

text \<open>
  One value between optional whitespace; trailing text is a decode error. The bound is
  more than twice the length of the string, and each nested call follows at least one
  character read.
\<close>

definition json_loads :: "string \<Rightarrow> exn + json" where
  "json_loads s =
     (case parse_value (2 * length s + 2) (skip_ws s) of
        Inl e \<Rightarrow> Inl e
      | Inr (v, rest) \<Rightarrow> if skip_ws rest = [] then Inr v else Inl JSONDecodeError)"

text \<open>Decimal digits of a natural number, and of an integer.\<close>

function show_nat :: "nat \<Rightarrow> string" where
  "show_nat n =
     (if n < 10 then [char_of (48 + n)] else show_nat (n div 10) @ [char_of (48 + n mod 10)])"
  by pat_completeness auto
termination
  by (relation "measure id") auto

definition show_int :: "int \<Rightarrow> string" where
  "show_int i = (if i < 0 then ''-'' @ show_nat (nat (- i)) else show_nat (nat i))"

text \<open>
  The layout of \<^verbatim>\<open>indent=2\<close>: one item per line, two spaces for each level, the empty
  containers as \<^verbatim>\<open>[]\<close> and \<^verbatim>\<open>{}\<close>.
\<close>

definition newline_indent :: "nat \<Rightarrow> string" where
  "newline_indent level = CHR 0x0A # replicate (2 * level) (CHR 0x20)"

fun dumps_at :: "nat \<Rightarrow> json \<Rightarrow> string" where
  "dumps_at level JNull = ''null''"
| "dumps_at level (JBool b) = (if b then ''true'' else ''false'')"
| "dumps_at level (JInt i) = show_int i"
| "dumps_at level (JStr s) = [CHR 0x22] @ s @ [CHR 0x22]"
| "dumps_at level (JArr vs) =
     (if vs = [] then ''[]''
      else ''['' @ newline_indent (Suc level)
           @ join ('','' @ newline_indent (Suc level)) (map (dumps_at (Suc level)) vs)
           @ newline_indent level @ '']'')"
| "dumps_at level (JObj ms) =
     (if ms = [] then ''{}''
      else ''{'' @ newline_indent (Suc level)
           @ join ('','' @ newline_indent (Suc level))
               (map (\<lambda>m. [CHR 0x22] @ fst m @ [CHR 0x22] @ '': '' @ dumps_at (Suc level) (snd m)) ms)
           @ newline_indent level @ ''}'')"

definition json_dumps :: "json \<Rightarrow> string" where
  "json_dumps v = dumps_at 0 v"

section \<open>Positional coverage\<close>

text \<open>
  \<open>covers pieces s\<close>: the strings \<open>pieces\<close>, in order, make up \<open>s\<close> when the whitespace
  before, between and after them is ignored.
\<close>

fun covers :: "string list \<Rightarrow> string \<Rightarrow> bool" where
  "covers [] s = (lstrip s = [])"
| "covers (p # ps) s = (take (length p) (lstrip s) = p \<and> covers ps (drop (length p) (lstrip s)))"

text \<open>
  \<open>reads_as loads c piece\<close>: the chunk \<open>c\<close> holds the content of the piece of input
  \<open>piece\<close>. A \<open>Text\<close> chunk is the piece itself. A \<open>Json\<close> chunk is the value the piece
  decodes to, or, when the piece is a fenced block, the value its content (group 1 of the
  pattern) decodes to.
\<close>

fun reads_as :: "(string \<Rightarrow> exn + 'j) \<Rightarrow> 'j chunk \<Rightarrow> string \<Rightarrow> bool" where
  "reads_as loads (Text t) piece = (piece = t)"
| "reads_as loads (Json v) piece =
     (loads piece = Inr v
      \<or> (case match_markdown piece of
            None \<Rightarrow> False
          | Some (content, rest) \<Rightarrow> rest = [] \<and> loads content = Inr v))"

text \<open>
  The spans recorded by a scan (the fenced matches, or the parsed brace spans), from index
  \<open>lo\<close> on: in order, disjoint, inside the text, each starting at a visible character.
\<close>

fun spans_ok :: "string \<Rightarrow> nat \<Rightarrow> (nat \<times> nat \<times> 'j) list \<Rightarrow> bool" where
  "spans_ok text lo [] = (lo \<le> length text)"
| "spans_ok text lo ((a, b, v) # spans) =
     (lo \<le> a \<and> a < b \<and> b \<le> length text \<and> \<not> is_space (text ! a) \<and> spans_ok text b spans)"

text \<open>A string without its whitespace characters.\<close>

definition squash :: "string \<Rightarrow> string" where
  "squash s = filter (\<lambda>c. \<not> is_space c) s"

section \<open>The candidates of the brace scan\<close>

text \<open>
  The two counters of the scan do not depend on what the decoder answers: \<open>start_idx\<close> is
  reset after every attempt, parsed or not. So the spans on which line 110 calls the
  decoder are those the scan records with a decoder that accepts every span and returns
  it; \<open>parsed_of\<close> keeps of them the ones the real decoder parses.
\<close>

definition brace_candidates :: "string \<Rightarrow> (nat \<times> nat \<times> string) list" where
  "brace_candidates text =
     (case brace_scan Inr text 0 text 0 (- 1) of Inr spans \<Rightarrow> spans | Inl e \<Rightarrow> [])"

fun parsed_of :: "(string \<Rightarrow> exn + 'j) \<Rightarrow> (nat \<times> nat \<times> string) list \<Rightarrow> (nat \<times> nat \<times> 'j) list" where
  "parsed_of loads [] = []"
| "parsed_of loads ((a, b, candidate) # spans) =
     (case loads candidate of
        Inr v \<Rightarrow> (a, b, v) # parsed_of loads spans
      | Inl e \<Rightarrow> parsed_of loads spans)"

section \<open>Properties of the aligner\<close>

subsection \<open>Reading well-formed segments\<close>

lemma interval_getitem:
  assumes "is_interval d"
  obtains a b where "getitem d ''start'' = Inr a" "as_num a = Some (seg_start d)"
    "getitem d ''end'' = Inr b" "as_num b = Some (seg_end d)"
  using assms
  by (auto simp: is_interval_def num_field_def getitem_def seg_start_def seg_end_def
      split: option.splits)

lemma speaker_getitem:
  "is_speaker_segment d \<Longrightarrow> getitem d ''speaker'' = Inr (seg_speaker d)"
  by (auto simp: is_speaker_segment_def getitem_def seg_speaker_def split: option.splits)

lemma overlap_segments:
  assumes "as_num a = Some (seg_start t)" "as_num b = Some (seg_end t)"
    "as_num c = Some (seg_start s)" "as_num d = Some (seg_end s)"
  shows "overlap fsub a b c d = Inr (seg_overlap fsub t s)"
  using assms by (simp add: overlap_def seg_overlap_def)

lemma seg_overlap_nonneg: "0 \<le> seg_overlap fsub t s"
  by (simp add: seg_overlap_def)

lemma loop_step:
  assumes "is_speaker_segment s"
    and "as_num a = Some (seg_start t)" "as_num b = Some (seg_end t)"
  shows "best_speaker_loop fsub a b (s # rest) (bs, bo) =
     (if seg_overlap fsub t s > bo then best_speaker_loop fsub a b rest (seg_speaker s, seg_overlap fsub t s)
      else best_speaker_loop fsub a b rest (bs, bo))"
proof -
  from assms(1) have "is_interval s" by (simp add: is_speaker_segment_def)
  then obtain c d where cd: "getitem s ''start'' = Inr c" "as_num c = Some (seg_start s)"
    "getitem s ''end'' = Inr d" "as_num d = Some (seg_end s)"
    by (rule interval_getitem)
  have ov: "overlap fsub a b c d = Inr (seg_overlap fsub t s)"
    using assms(2,3) cd(2,4) by (rule overlap_segments)
  show ?thesis
    by (simp add: cd(1,3) ov speaker_getitem [OF assms(1)])
qed

subsection \<open>The first maximum of a list\<close>

lemma first_max_Nil: "\<not> first_max fsub t [] w"
  by (simp add: first_max_def)

lemma first_max_here:
  "\<forall>x\<in>set ss. seg_overlap fsub t x \<le> seg_overlap fsub t s \<Longrightarrow> first_max fsub t (s # ss) s"
  unfolding first_max_def by (rule exI [of _ "[]"]) simp

lemma first_max_later:
  assumes "first_max fsub t ss w" "seg_overlap fsub t s < seg_overlap fsub t w"
  shows "first_max fsub t (s # ss) w"
proof -
  from assms(1) obtain pre post where h: "ss = pre @ w # post"
    "\<forall>x\<in>set pre. seg_overlap fsub t x < seg_overlap fsub t w"
    "\<forall>x\<in>set post. seg_overlap fsub t x \<le> seg_overlap fsub t w"
    unfolding first_max_def by blast
  have "s # ss = (s # pre) @ w # post" using h(1) by simp
  moreover have "\<forall>x\<in>set (s # pre). seg_overlap fsub t x < seg_overlap fsub t w"
    using h(2) assms(2) by simp
  ultimately show ?thesis unfolding first_max_def using h(3) by blast
qed

lemma first_max_ConsD:
  assumes "first_max fsub t (s # ss) w"
  shows "(w = s \<and> (\<forall>x\<in>set ss. seg_overlap fsub t x \<le> seg_overlap fsub t s))
       \<or> (seg_overlap fsub t s < seg_overlap fsub t w \<and> first_max fsub t ss w)"
proof -
  from assms obtain pre post where h: "s # ss = pre @ w # post"
    "\<forall>x\<in>set pre. seg_overlap fsub t x < seg_overlap fsub t w"
    "\<forall>x\<in>set post. seg_overlap fsub t x \<le> seg_overlap fsub t w"
    unfolding first_max_def by blast
  show ?thesis
  proof (cases pre)
    case Nil
    with h show ?thesis by simp
  next
    case (Cons p pre')
    with h have "p = s" "ss = pre' @ w # post" "seg_overlap fsub t s < seg_overlap fsub t w"
      "\<forall>x\<in>set pre'. seg_overlap fsub t x < seg_overlap fsub t w"
      by simp_all
    then have "seg_overlap fsub t s < seg_overlap fsub t w \<and> first_max fsub t ss w"
      unfolding first_max_def using h(3) by blast
    then show ?thesis ..
  qed
qed

lemma first_max_Cons:
  "first_max fsub t (s # ss) w \<longleftrightarrow>
     (w = s \<and> (\<forall>x\<in>set ss. seg_overlap fsub t x \<le> seg_overlap fsub t s))
   \<or> (seg_overlap fsub t s < seg_overlap fsub t w \<and> first_max fsub t ss w)"
  using first_max_ConsD first_max_here first_max_later by blast

lemma first_max_mem: "first_max fsub t ss w \<Longrightarrow> w \<in> set ss"
  by (auto simp: first_max_def)

lemma first_max_greatest: "first_max fsub t ss w \<Longrightarrow> x \<in> set ss \<Longrightarrow> seg_overlap fsub t x \<le> seg_overlap fsub t w"
  by (fastforce simp: first_max_def)

lemma first_max_unique: "first_max fsub t ss w \<Longrightarrow> first_max fsub t ss w' \<Longrightarrow> w = w'"
proof (induction ss)
  case Nil
  then show ?case by (simp add: first_max_Nil)
next
  case (Cons s ss)
  from Cons.prems(1) [THEN first_max_ConsD] Cons.prems(2) [THEN first_max_ConsD]
  show ?case
  proof (elim disjE conjE)
    assume "w = s" "w' = s"
    then show ?thesis by simp
  next
    assume "w = s" "\<forall>x\<in>set ss. seg_overlap fsub t x \<le> seg_overlap fsub t s"
      "seg_overlap fsub t s < seg_overlap fsub t w'" "first_max fsub t ss w'"
    then show ?thesis using first_max_mem by fastforce
  next
    assume "w' = s" "\<forall>x\<in>set ss. seg_overlap fsub t x \<le> seg_overlap fsub t s"
      "seg_overlap fsub t s < seg_overlap fsub t w" "first_max fsub t ss w"
    then show ?thesis using first_max_mem by fastforce
  next
    assume "first_max fsub t ss w" "first_max fsub t ss w'"
    then show ?thesis by (rule Cons.IH)
  qed
qed

subsection \<open>What the two loops compute\<close>

lemma loop_first_max:
  assumes "\<forall>s\<in>set ss. is_speaker_segment s"
    and "as_num a = Some (seg_start t)" "as_num b = Some (seg_end t)"
  shows "(best_speaker_loop fsub a b ss (bs, bo) = Inr (bs, bo) \<and> (\<forall>s\<in>set ss. seg_overlap fsub t s \<le> bo))
       \<or> (\<exists>w. first_max fsub t ss w \<and> bo < seg_overlap fsub t w
            \<and> best_speaker_loop fsub a b ss (bs, bo) = Inr (seg_speaker w, seg_overlap fsub t w))"
  using assms(1)
proof (induction ss arbitrary: bs bo)
  case Nil
  then show ?case by simp
next
  case (Cons s ss)
  have sp: "is_speaker_segment s" and rest: "\<forall>s\<in>set ss. is_speaker_segment s"
    using Cons.prems by simp_all
  note step = loop_step [OF sp assms(2) assms(3)]
  show ?case
  proof (cases "seg_overlap fsub t s > bo")
    case True
    from Cons.IH [OF rest, of "seg_speaker s" "seg_overlap fsub t s"]
    show ?thesis
    proof (elim disjE conjE exE)
      assume h: "best_speaker_loop fsub a b ss (seg_speaker s, seg_overlap fsub t s) = Inr (seg_speaker s, seg_overlap fsub t s)"
        "\<forall>x\<in>set ss. seg_overlap fsub t x \<le> seg_overlap fsub t s"
      have "first_max fsub t (s # ss) s" using h(2) by (rule first_max_here)
      moreover have "best_speaker_loop fsub a b (s # ss) (bs, bo) = Inr (seg_speaker s, seg_overlap fsub t s)"
        using True h(1) by (subst step) simp
      ultimately show ?thesis using True by blast
    next
      fix w
      assume h: "first_max fsub t ss w" "seg_overlap fsub t s < seg_overlap fsub t w"
        "best_speaker_loop fsub a b ss (seg_speaker s, seg_overlap fsub t s) = Inr (seg_speaker w, seg_overlap fsub t w)"
      have "first_max fsub t (s # ss) w" using h(1,2) by (rule first_max_later)
      moreover have "best_speaker_loop fsub a b (s # ss) (bs, bo) = Inr (seg_speaker w, seg_overlap fsub t w)"
        using True h(3) by (subst step) simp
      moreover have "bo < seg_overlap fsub t w" using True h(2) by simp
      ultimately show ?thesis by blast
    qed
  next
    case False
    from Cons.IH [OF rest, of bs bo]
    show ?thesis
    proof (elim disjE conjE exE)
      assume h: "best_speaker_loop fsub a b ss (bs, bo) = Inr (bs, bo)"
        "\<forall>x\<in>set ss. seg_overlap fsub t x \<le> bo"
      have "best_speaker_loop fsub a b (s # ss) (bs, bo) = Inr (bs, bo)"
        using False h(1) by (subst step) simp
      moreover have "\<forall>x\<in>set (s # ss). seg_overlap fsub t x \<le> bo"
        using False h(2) by simp
      ultimately show ?thesis by blast
    next
      fix w
      assume h: "first_max fsub t ss w" "bo < seg_overlap fsub t w"
        "best_speaker_loop fsub a b ss (bs, bo) = Inr (seg_speaker w, seg_overlap fsub t w)"
      have "seg_overlap fsub t s < seg_overlap fsub t w" using False h(2) by simp
      with h(1) have "first_max fsub t (s # ss) w" by (rule first_max_later)
      moreover have "best_speaker_loop fsub a b (s # ss) (bs, bo) = Inr (seg_speaker w, seg_overlap fsub t w)"
        using False h(3) by (subst step) simp
      ultimately show ?thesis using h(2) by blast
    qed
  qed
qed

lemma align_segment_cases:
  assumes "is_interval t" "\<forall>s\<in>set ss. is_speaker_segment s"
  shows "((\<forall>s\<in>set ss. seg_overlap fsub t s \<le> 0)
          \<and> align_segment fsub t ss = Inr (AList.update ''speaker'' (PStr ''UNKNOWN'') t))
       \<or> (\<exists>w. first_max fsub t ss w \<and> 0 < seg_overlap fsub t w
            \<and> align_segment fsub t ss = Inr (AList.update ''speaker'' (speaker_label (seg_speaker w)) t))"
proof -
  from assms(1) obtain a b where ab: "getitem t ''start'' = Inr a" "as_num a = Some (seg_start t)"
    "getitem t ''end'' = Inr b" "as_num b = Some (seg_end t)"
    by (rule interval_getitem)
  from loop_first_max [OF assms(2) ab(2) ab(4), where bs = PNone and bo = 0 and fsub = fsub]
  show ?thesis
  proof (elim disjE conjE exE)
    assume "best_speaker_loop fsub a b ss (PNone, 0) = Inr (PNone, 0)"
      "\<forall>s\<in>set ss. seg_overlap fsub t s \<le> 0"
    then show ?thesis
      by (simp add: align_segment_def ab(1,3) speaker_label_def)
  next
    fix w
    assume h: "first_max fsub t ss w" "0 < seg_overlap fsub t w"
      "best_speaker_loop fsub a b ss (PNone, 0) = Inr (seg_speaker w, seg_overlap fsub t w)"
    have "align_segment fsub t ss = Inr (AList.update ''speaker'' (speaker_label (seg_speaker w)) t)"
      by (simp add: align_segment_def ab(1,3) h(3))
    with h(1,2) show ?thesis by blast
  qed
qed

lemma align_nth:
  "align_transcription_with_speakers fsub ts ss = Inr outs \<Longrightarrow>
     length outs = length ts \<and> (\<forall>i<length ts. align_segment fsub (ts ! i) ss = Inr (outs ! i))"
proof (induction ts arbitrary: outs)
  case Nil
  then show ?case by simp
next
  case (Cons t ts)
  from Cons.prems obtain out rest where h: "align_segment fsub t ss = Inr out"
    "align_transcription_with_speakers fsub ts ss = Inr rest" "outs = out # rest"
    by (auto split: sum.splits)
  from Cons.IH [OF h(2)] have ih: "length rest = length ts"
    "\<forall>i<length ts. align_segment fsub (ts ! i) ss = Inr (rest ! i)"
    by simp_all
  show ?case
  proof (intro conjI allI impI)
    show "length outs = length (t # ts)" using h(3) ih(1) by simp
  next
    fix i assume "i < length (t # ts)"
    then show "align_segment fsub ((t # ts) ! i) ss = Inr (outs ! i)"
      using h(1,3) ih(2) by (cases i) simp_all
  qed
qed

lemma align_returns:
  "\<forall>t\<in>set ts. \<exists>out. align_segment fsub t ss = Inr out \<Longrightarrow>
     \<exists>outs. align_transcription_with_speakers fsub ts ss = Inr outs"
proof (induction ts)
  case Nil
  then show ?case by simp
next
  case (Cons t ts)
  then obtain out rest where "align_segment fsub t ss = Inr out"
    "align_transcription_with_speakers fsub ts ss = Inr rest"
    by auto
  then show ?case by simp
qed

lemma align_segment_returns:
  assumes "is_interval t" "\<forall>s\<in>set ss. is_speaker_segment s"
  shows "\<exists>out. align_segment fsub t ss = Inr out"
  using align_segment_cases [OF assms] by blast

lemma update_absent: "k \<notin> fst ` set al \<Longrightarrow> AList.update k v al = al @ [(k, v)]"
  by (induction al) auto

lemma align_segment_update:
  "align_segment fsub t ss = Inr out \<Longrightarrow> \<exists>l. out = AList.update ''speaker'' l t"
  by (auto simp: align_segment_def split: sum.splits)

lemma align_label_cases:
  assumes "\<forall>t\<in>set ts. is_interval t" "\<forall>s\<in>set ss. is_speaker_segment s" "i < length ts"
  shows "\<exists>outs. align_transcription_with_speakers fsub ts ss = Inr outs \<and> length outs = length ts \<and>
     (((\<forall>s\<in>set ss. seg_overlap fsub (ts ! i) s = 0)
          \<and> map_of (outs ! i) ''speaker'' = Some (PStr ''UNKNOWN''))
       \<or> (\<exists>w. first_max fsub (ts ! i) ss w \<and> 0 < seg_overlap fsub (ts ! i) w
            \<and> map_of (outs ! i) ''speaker'' = Some (speaker_label (seg_speaker w))))"
proof -
  have "\<forall>t\<in>set ts. \<exists>out. align_segment fsub t ss = Inr out"
    using assms(1,2) align_segment_returns by blast
  then obtain outs where outs: "align_transcription_with_speakers fsub ts ss = Inr outs"
    using align_returns by blast
  from align_nth [OF outs] assms(3)
  have len: "length outs = length ts" and nth: "align_segment fsub (ts ! i) ss = Inr (outs ! i)"
    by simp_all
  have ti: "is_interval (ts ! i)" using assms(1,3) by simp
  from align_segment_cases [OF ti assms(2), where fsub = fsub]
  have "((\<forall>s\<in>set ss. seg_overlap fsub (ts ! i) s = 0)
          \<and> map_of (outs ! i) ''speaker'' = Some (PStr ''UNKNOWN''))
       \<or> (\<exists>w. first_max fsub (ts ! i) ss w \<and> 0 < seg_overlap fsub (ts ! i) w
            \<and> map_of (outs ! i) ''speaker'' = Some (speaker_label (seg_speaker w)))"
  proof (elim disjE conjE exE)
    assume h: "\<forall>s\<in>set ss. seg_overlap fsub (ts ! i) s \<le> 0"
      "align_segment fsub (ts ! i) ss = Inr (AList.update ''speaker'' (PStr ''UNKNOWN'') (ts ! i))"
    have "\<forall>s\<in>set ss. seg_overlap fsub (ts ! i) s = 0"
      using h(1) seg_overlap_nonneg by (simp add: order_antisym)
    moreover have "map_of (outs ! i) ''speaker'' = Some (PStr ''UNKNOWN'')"
      using h(2) nth by (simp add: update_conv')
    ultimately show ?thesis by blast
  next
    fix w
    assume h: "first_max fsub (ts ! i) ss w" "0 < seg_overlap fsub (ts ! i) w"
      "align_segment fsub (ts ! i) ss =
         Inr (AList.update ''speaker'' (speaker_label (seg_speaker w)) (ts ! i))"
    have "map_of (outs ! i) ''speaker'' = Some (speaker_label (seg_speaker w))"
      using h(3) nth by (simp add: update_conv')
    with h(1,2) show ?thesis by blast
  qed
  with outs len show ?thesis by blast
qed

lemma align_label_first_max:
  assumes "\<forall>t\<in>set ts. is_interval t" "\<forall>s\<in>set ss. is_speaker_segment s" "i < length ts"
    and "first_max fsub (ts ! i) ss w" "0 < seg_overlap fsub (ts ! i) w"
  shows "\<exists>outs. align_transcription_with_speakers fsub ts ss = Inr outs
           \<and> map_of (outs ! i) ''speaker'' = Some (speaker_label (seg_speaker w))"
proof -
  from align_label_cases [OF assms(1-3)] obtain outs where
    outs: "align_transcription_with_speakers fsub ts ss = Inr outs" and
    c: "((\<forall>s\<in>set ss. seg_overlap fsub (ts ! i) s = 0)
          \<and> map_of (outs ! i) ''speaker'' = Some (PStr ''UNKNOWN''))
       \<or> (\<exists>w. first_max fsub (ts ! i) ss w \<and> 0 < seg_overlap fsub (ts ! i) w
            \<and> map_of (outs ! i) ''speaker'' = Some (speaker_label (seg_speaker w)))"
    by blast
  have w: "w \<in> set ss" using assms(4) by (rule first_max_mem)
  from c have "map_of (outs ! i) ''speaker'' = Some (speaker_label (seg_speaker w))"
  proof (elim disjE conjE exE)
    assume "\<forall>s\<in>set ss. seg_overlap fsub (ts ! i) s = 0"
    with w assms(5) show ?thesis by simp
  next
    fix w'
    assume h: "first_max fsub (ts ! i) ss w'"
      "map_of (outs ! i) ''speaker'' = Some (speaker_label (seg_speaker w'))"
    from assms(4) h(1) have "w = w'" by (rule first_max_unique)
    with h(2) show ?thesis by simp
  qed
  with outs show ?thesis by blast
qed

lemmas segment_eval =
  exact_sub_def is_interval_def is_speaker_segment_def num_field_def seg_overlap_def seg_start_def seg_end_def
  seg_speaker_def speaker_segment_def transcript_segment_def

lemmas align_eval =
  exact_sub_def align_segment_def getitem_def overlap_def speaker_label_def speaker_segment_def
  transcript_segment_def

section \<open>Claims about the aligner\<close>

text \<open>
  C1 (as amended). For a list of transcript segments and a list of speaker segments, all
  with numeric bounds: when the first speaker segment, in input order, that attains the
  greatest overlap \<open>max(0, min(tEnd, sEnd) - max(tStart, sStart))\<close>, as the code computes
  it in floats, with the \<open>i\<close>-th transcript segment has a positive overlap, the \<open>i\<close>-th
  output carries that segment's label if the label is truthy (a non-empty string), and
  \<^verbatim>\<open>"UNKNOWN"\<close> otherwise. Segments whose computed overlaps are equal tie, also when
  their exact overlaps differ, and the first of them is kept.
\<close>

theorem align_first_max_label:
  assumes "\<forall>t\<in>set ts. is_interval t" "\<forall>s\<in>set ss. is_speaker_segment s" "i < length ts"
    and "first_max fsub (ts ! i) ss w" "0 < seg_overlap fsub (ts ! i) w"
  shows "\<exists>outs. align_transcription_with_speakers fsub ts ss = Inr outs
           \<and> map_of (outs ! i) ''speaker''
               = Some (if truthy (seg_speaker w) then seg_speaker w else PStr ''UNKNOWN'')"
  using align_label_first_max [OF assms] by (simp add: speaker_label_def)

text \<open>
  The example of the specification: transcript segment \<open>[0,5]\<close>, speaker segments
  \<open>A = [0,2]\<close> and \<open>B = [1,6]\<close>; the overlaps are 2 and 4, and the label is \<open>B\<close>'s. And a
  tie: for the speaker segments \<open>C = [0,1]\<close> and \<open>D = [2,3]\<close> both overlaps are 1, and the
  label is \<open>C\<close>'s, the first.
\<close>

theorem align_first_max_label_witness:
  "is_interval (transcript_segment 0 0 5 ''hi'')
   \<and> is_speaker_segment (speaker_segment ''A'' 0 2)
   \<and> is_speaker_segment (speaker_segment ''B'' 1 6)
   \<and> first_max exact_sub (transcript_segment 0 0 5 ''hi'')
        [speaker_segment ''A'' 0 2, speaker_segment ''B'' 1 6] (speaker_segment ''B'' 1 6)
   \<and> seg_overlap exact_sub (transcript_segment 0 0 5 ''hi'') (speaker_segment ''A'' 0 2) = 2
   \<and> seg_overlap exact_sub (transcript_segment 0 0 5 ''hi'') (speaker_segment ''B'' 1 6) = 4
   \<and> (\<exists>outs. align_transcription_with_speakers exact_sub [transcript_segment 0 0 5 ''hi'']
                 [speaker_segment ''A'' 0 2, speaker_segment ''B'' 1 6] = Inr outs
         \<and> map_of (outs ! 0) ''speaker'' = Some (PStr ''B''))
   \<and> first_max exact_sub (transcript_segment 0 0 5 ''hi'')
        [speaker_segment ''C'' 0 1, speaker_segment ''D'' 2 3] (speaker_segment ''C'' 0 1)
   \<and> seg_overlap exact_sub (transcript_segment 0 0 5 ''hi'') (speaker_segment ''C'' 0 1) = 1
   \<and> seg_overlap exact_sub (transcript_segment 0 0 5 ''hi'') (speaker_segment ''D'' 2 3) = 1
   \<and> (\<exists>outs. align_transcription_with_speakers exact_sub [transcript_segment 0 0 5 ''hi'']
                 [speaker_segment ''C'' 0 1, speaker_segment ''D'' 2 3] = Inr outs
         \<and> map_of (outs ! 0) ''speaker'' = Some (PStr ''C''))"
proof -
  let ?t = "transcript_segment 0 0 5 ''hi''"
  let ?a = "speaker_segment ''A'' 0 2"
  let ?b = "speaker_segment ''B'' 1 6"
  let ?c = "speaker_segment ''C'' 0 1"
  let ?d = "speaker_segment ''D'' 2 3"
  have t: "\<forall>t\<in>set [?t]. is_interval t" by (simp add: segment_eval)
  have s: "\<forall>s\<in>set [?a, ?b]. is_speaker_segment s" by (simp add: segment_eval)
  have s': "\<forall>s\<in>set [?c, ?d]. is_speaker_segment s" by (simp add: segment_eval)
  have oa: "seg_overlap exact_sub ?t ?a = 2" by (simp add: segment_eval)
  have ob: "seg_overlap exact_sub ?t ?b = 4" by (simp add: segment_eval)
  have oc: "seg_overlap exact_sub ?t ?c = 1" by (simp add: segment_eval)
  have od: "seg_overlap exact_sub ?t ?d = 1" by (simp add: segment_eval)
  have fm: "first_max exact_sub ([?t] ! 0) [?a, ?b] ?b"
    by (simp add: first_max_Cons first_max_Nil oa ob)
  have fm': "first_max exact_sub ([?t] ! 0) [?c, ?d] ?c"
    by (simp add: first_max_Cons first_max_Nil oc od)
  have pos: "0 < seg_overlap exact_sub ([?t] ! 0) ?b" by (simp add: ob)
  have pos': "0 < seg_overlap exact_sub ([?t] ! 0) ?c" by (simp add: oc)
  have lab: "seg_speaker ?b = PStr ''B''" by (simp add: segment_eval)
  have lab': "seg_speaker ?c = PStr ''C''" by (simp add: segment_eval)
  from align_first_max_label [OF t s _ fm pos]
  have r: "\<exists>outs. align_transcription_with_speakers exact_sub [?t] [?a, ?b] = Inr outs
         \<and> map_of (outs ! 0) ''speaker'' = Some (PStr ''B'')"
    by (simp add: lab)
  from align_first_max_label [OF t s' _ fm' pos']
  have r': "\<exists>outs. align_transcription_with_speakers exact_sub [?t] [?c, ?d] = Inr outs
         \<and> map_of (outs ! 0) ''speaker'' = Some (PStr ''C'')"
    by (simp add: lab')
  from t s oa ob fm have first: "is_interval ?t \<and> is_speaker_segment ?a \<and> is_speaker_segment ?b
      \<and> first_max exact_sub ?t [?a, ?b] ?b \<and> seg_overlap exact_sub ?t ?a = 2
      \<and> seg_overlap exact_sub ?t ?b = 4"
    by simp
  from fm' oc od have second: "first_max exact_sub ?t [?c, ?d] ?c
      \<and> seg_overlap exact_sub ?t ?c = 1 \<and> seg_overlap exact_sub ?t ?d = 1"
    by simp
  from first r second r' show ?thesis by blast
qed

text \<open>
  C1 as stated fails when the winning label is the empty string: for transcript segment
  \<open>[0,5]\<close> and speaker segments \<open>[0,4]\<close> with label \<^verbatim>\<open>""\<close> and \<open>[4,5]\<close> with label
  \<^verbatim>\<open>"SPEAKER_01"\<close>, the first segment has the greatest overlap, and the label assigned is
  \<^verbatim>\<open>"UNKNOWN"\<close>, not that segment's label.
\<close>

theorem align_first_max_label_counterexample:
  "first_max exact_sub (transcript_segment 0 0 5 ''hi'')
        [speaker_segment '''' 0 4, speaker_segment ''SPEAKER_01'' 4 5] (speaker_segment '''' 0 4)
   \<and> seg_overlap exact_sub (transcript_segment 0 0 5 ''hi'') (speaker_segment '''' 0 4) = 4
   \<and> seg_speaker (speaker_segment '''' 0 4) = PStr ''''
   \<and> align_transcription_with_speakers exact_sub [transcript_segment 0 0 5 ''hi'']
        [speaker_segment '''' 0 4, speaker_segment ''SPEAKER_01'' 4 5]
      = Inr [transcript_segment 0 0 5 ''hi'' @ [(''speaker'', PStr ''UNKNOWN'')]]"
proof -
  let ?t = "transcript_segment 0 0 5 ''hi''"
  let ?a = "speaker_segment '''' 0 4"
  let ?b = "speaker_segment ''SPEAKER_01'' 4 5"
  have oa: "seg_overlap exact_sub ?t ?a = 4" by (simp add: segment_eval)
  have ob: "seg_overlap exact_sub ?t ?b = 1" by (simp add: segment_eval)
  have fm: "first_max exact_sub ?t [?a, ?b] ?a"
    by (simp add: first_max_Cons first_max_Nil oa ob)
  have lab: "seg_speaker ?a = PStr ''''" by (simp add: segment_eval)
  have run: "align_transcription_with_speakers exact_sub [?t] [?a, ?b]
      = Inr [?t @ [(''speaker'', PStr ''UNKNOWN'')]]"
    by (simp add: align_eval)
  from fm oa lab run show ?thesis by simp
qed

text \<open>
  C2. For transcript segments and speaker segments of the data model (numeric bounds, and
  a label on each speaker segment), align returns a list; it has the length of the
  transcript list, and its \<open>i\<close>-th element is the aligned form of the \<open>i\<close>-th transcript
  segment.
\<close>

theorem align_same_length_and_order:
  assumes "\<forall>t\<in>set ts. is_interval t" "\<forall>s\<in>set ss. is_speaker_segment s"
  shows "\<exists>outs. align_transcription_with_speakers fsub ts ss = Inr outs
           \<and> length outs = length ts
           \<and> (\<forall>i<length ts. align_segment fsub (ts ! i) ss = Inr (outs ! i))"
proof -
  have "\<forall>t\<in>set ts. \<exists>out. align_segment fsub t ss = Inr out"
    using assms align_segment_returns by blast
  then obtain outs where outs: "align_transcription_with_speakers fsub ts ss = Inr outs"
    using align_returns by blast
  with align_nth [OF outs] show ?thesis by blast
qed

theorem align_same_length_and_order_witness:
  "is_interval (transcript_segment 0 0 5 ''one'')
   \<and> is_interval (transcript_segment 1 5 9 ''two'')
   \<and> is_speaker_segment (speaker_segment ''SPEAKER_00'' 0 6)
   \<and> is_speaker_segment (speaker_segment ''SPEAKER_01'' 6 9)
   \<and> align_transcription_with_speakers exact_sub
        [transcript_segment 0 0 5 ''one'', transcript_segment 1 5 9 ''two'']
        [speaker_segment ''SPEAKER_00'' 0 6, speaker_segment ''SPEAKER_01'' 6 9]
      = Inr [transcript_segment 0 0 5 ''one'' @ [(''speaker'', PStr ''SPEAKER_00'')],
             transcript_segment 1 5 9 ''two'' @ [(''speaker'', PStr ''SPEAKER_01'')]]"
proof -
  let ?ts = "[transcript_segment 0 0 5 ''one'', transcript_segment 1 5 9 ''two'']"
  let ?ss = "[speaker_segment ''SPEAKER_00'' 0 6, speaker_segment ''SPEAKER_01'' 6 9]"
  have t: "\<forall>t\<in>set ?ts. is_interval t" by (simp add: segment_eval)
  have s: "\<forall>s\<in>set ?ss. is_speaker_segment s" by (simp add: segment_eval)
  have run: "align_transcription_with_speakers exact_sub ?ts ?ss
      = Inr [transcript_segment 0 0 5 ''one'' @ [(''speaker'', PStr ''SPEAKER_00'')],
             transcript_segment 1 5 9 ''two'' @ [(''speaker'', PStr ''SPEAKER_01'')]]"
    by (simp add: align_eval)
  from align_same_length_and_order [OF t s] run
  have "align_transcription_with_speakers exact_sub ?ts ?ss
      = Inr [transcript_segment 0 0 5 ''one'' @ [(''speaker'', PStr ''SPEAKER_00'')],
             transcript_segment 1 5 9 ''two'' @ [(''speaker'', PStr ''SPEAKER_01'')]]"
    by blast
  with t s show ?thesis by simp
qed

text \<open>
  C3 (as amended). For segments of the data model, the \<open>i\<close>-th output carries the label
  \<^verbatim>\<open>"UNKNOWN"\<close> exactly when no speaker segment has a positive computed overlap with the
  \<open>i\<close>-th transcript segment (in particular when there is no speaker segment), or the
  first speaker segment of greatest computed overlap has a label that is falsy (the empty
  string) or is itself \<^verbatim>\<open>"UNKNOWN"\<close>. A segment of overlap zero never wins: the comparison is strict,
  against an initial best of 0.
\<close>

theorem align_unknown_iff:
  assumes "\<forall>t\<in>set ts. is_interval t" "\<forall>s\<in>set ss. is_speaker_segment s" "i < length ts"
  shows "\<exists>outs. align_transcription_with_speakers fsub ts ss = Inr outs \<and>
     (map_of (outs ! i) ''speaker'' = Some (PStr ''UNKNOWN'') \<longleftrightarrow>
        (\<forall>s\<in>set ss. seg_overlap fsub (ts ! i) s = 0)
      \<or> (\<exists>w. first_max fsub (ts ! i) ss w
            \<and> (if truthy (seg_speaker w) then seg_speaker w else PStr ''UNKNOWN'') = PStr ''UNKNOWN''))"
proof -
  from align_label_cases [OF assms] obtain outs where
    outs: "align_transcription_with_speakers fsub ts ss = Inr outs" and
    c: "((\<forall>s\<in>set ss. seg_overlap fsub (ts ! i) s = 0)
          \<and> map_of (outs ! i) ''speaker'' = Some (PStr ''UNKNOWN''))
       \<or> (\<exists>w. first_max fsub (ts ! i) ss w \<and> 0 < seg_overlap fsub (ts ! i) w
            \<and> map_of (outs ! i) ''speaker'' = Some (speaker_label (seg_speaker w)))"
    by blast
  from c have "map_of (outs ! i) ''speaker'' = Some (PStr ''UNKNOWN'') \<longleftrightarrow>
        (\<forall>s\<in>set ss. seg_overlap fsub (ts ! i) s = 0)
      \<or> (\<exists>w. first_max fsub (ts ! i) ss w \<and> speaker_label (seg_speaker w) = PStr ''UNKNOWN'')"
  proof (elim disjE conjE exE)
    assume "\<forall>s\<in>set ss. seg_overlap fsub (ts ! i) s = 0"
      "map_of (outs ! i) ''speaker'' = Some (PStr ''UNKNOWN'')"
    then show ?thesis by simp
  next
    fix w
    assume h: "first_max fsub (ts ! i) ss w" "0 < seg_overlap fsub (ts ! i) w"
      "map_of (outs ! i) ''speaker'' = Some (speaker_label (seg_speaker w))"
    have "w \<in> set ss" using h(1) by (rule first_max_mem)
    with h(2) have pos: "\<not> (\<forall>s\<in>set ss. seg_overlap fsub (ts ! i) s = 0)" by force
    have "(\<exists>w'. first_max fsub (ts ! i) ss w' \<and> speaker_label (seg_speaker w') = PStr ''UNKNOWN'')
        \<longleftrightarrow> speaker_label (seg_speaker w) = PStr ''UNKNOWN''"
      using h(1) first_max_unique by blast
    moreover have "map_of (outs ! i) ''speaker'' = Some (PStr ''UNKNOWN'')
        \<longleftrightarrow> speaker_label (seg_speaker w) = PStr ''UNKNOWN''"
      using h(3) by simp
    ultimately show ?thesis using pos by blast
  qed
  with outs show ?thesis unfolding speaker_label_def by blast
qed

text \<open>
  Two speaker segments that only touch the transcript segment \<open>[2,4]\<close>, one of them of
  duration zero: every overlap is 0 and the label is \<^verbatim>\<open>"UNKNOWN"\<close>.
\<close>

theorem align_unknown_iff_witness:
  "is_interval (transcript_segment 0 2 4 ''hi'')
   \<and> is_speaker_segment (speaker_segment ''SPEAKER_00'' 0 2)
   \<and> is_speaker_segment (speaker_segment ''SPEAKER_01'' 3 3)
   \<and> seg_overlap exact_sub (transcript_segment 0 2 4 ''hi'') (speaker_segment ''SPEAKER_00'' 0 2) = 0
   \<and> seg_overlap exact_sub (transcript_segment 0 2 4 ''hi'') (speaker_segment ''SPEAKER_01'' 3 3) = 0
   \<and> (\<exists>outs. align_transcription_with_speakers exact_sub [transcript_segment 0 2 4 ''hi'']
                 [speaker_segment ''SPEAKER_00'' 0 2, speaker_segment ''SPEAKER_01'' 3 3] = Inr outs
         \<and> map_of (outs ! 0) ''speaker'' = Some (PStr ''UNKNOWN''))"
proof -
  let ?t = "transcript_segment 0 2 4 ''hi''"
  let ?a = "speaker_segment ''SPEAKER_00'' 0 2"
  let ?b = "speaker_segment ''SPEAKER_01'' 3 3"
  have t: "\<forall>t\<in>set [?t]. is_interval t" by (simp add: segment_eval)
  have s: "\<forall>s\<in>set [?a, ?b]. is_speaker_segment s" by (simp add: segment_eval)
  have oa: "seg_overlap exact_sub ?t ?a = 0" by (simp add: segment_eval)
  have ob: "seg_overlap exact_sub ?t ?b = 0" by (simp add: segment_eval)
  from align_unknown_iff [OF t s, where i = 0 and fsub = exact_sub]
  have "\<exists>outs. align_transcription_with_speakers exact_sub [?t] [?a, ?b] = Inr outs
         \<and> map_of (outs ! 0) ''speaker'' = Some (PStr ''UNKNOWN'')"
    by (simp add: oa ob)
  with t s oa ob show ?thesis by simp
qed

text \<open>
  C3 as stated fails: the speaker segment \<open>[0,10]\<close> with the empty label overlaps the
  transcript segment \<open>[2,4]\<close> by 2, and the label assigned is \<^verbatim>\<open>"UNKNOWN"\<close>.
\<close>

theorem align_unknown_iff_counterexample:
  "seg_overlap exact_sub (transcript_segment 7 2 4 ''hi'') (speaker_segment '''' 0 10) = 2
   \<and> align_transcription_with_speakers exact_sub [transcript_segment 7 2 4 ''hi''] [speaker_segment '''' 0 10]
      = Inr [transcript_segment 7 2 4 ''hi'' @ [(''speaker'', PStr ''UNKNOWN'')]]
   \<and> map_of (transcript_segment 7 2 4 ''hi'' @ [(''speaker'', PStr ''UNKNOWN'')]) ''speaker''
      = Some (PStr ''UNKNOWN'')"
proof -
  have "seg_overlap exact_sub (transcript_segment 7 2 4 ''hi'') (speaker_segment '''' 0 10) = 2"
    by (simp add: segment_eval)
  moreover have "align_transcription_with_speakers exact_sub [transcript_segment 7 2 4 ''hi'']
        [speaker_segment '''' 0 10]
      = Inr [transcript_segment 7 2 4 ''hi'' @ [(''speaker'', PStr ''UNKNOWN'')]]"
    by (simp add: align_eval)
  moreover have "map_of (transcript_segment 7 2 4 ''hi'' @ [(''speaker'', PStr ''UNKNOWN'')]) ''speaker''
      = Some (PStr ''UNKNOWN'')"
    by (simp add: transcript_segment_def)
  ultimately show ?thesis by simp
qed

text \<open>
  C9. Whenever align returns, the \<open>i\<close>-th output has, under every key other than
  \<^verbatim>\<open>"speaker"\<close>, the value the \<open>i\<close>-th transcript segment has there (and no value where it
  has none); for a transcript segment without a \<^verbatim>\<open>"speaker"\<close> entry the output is the
  segment itself, entries and order unchanged, with the one entry \<^verbatim>\<open>"speaker"\<close> added at
  the end.
\<close>

theorem align_preserves_fields:
  assumes "align_transcription_with_speakers fsub ts ss = Inr outs" "i < length ts"
  shows "(\<forall>k. k \<noteq> ''speaker'' \<longrightarrow> map_of (outs ! i) k = map_of (ts ! i) k)
       \<and> (''speaker'' \<notin> fst ` set (ts ! i) \<longrightarrow> (\<exists>l. outs ! i = ts ! i @ [(''speaker'', l)]))"
proof -
  from align_nth [OF assms(1)] assms(2) have "align_segment fsub (ts ! i) ss = Inr (outs ! i)"
    by simp
  then obtain l where l: "outs ! i = AList.update ''speaker'' l (ts ! i)"
    using align_segment_update by blast
  have frame: "map_of (outs ! i) k = map_of (ts ! i) k" if "k \<noteq> ''speaker''" for k
    using that unfolding l update_conv' by simp
  have added: "\<exists>l. outs ! i = ts ! i @ [(''speaker'', l)]" if "''speaker'' \<notin> fst ` set (ts ! i)"
    unfolding l update_absent [OF that] by (rule exI [of _ l]) (rule refl)
  from frame added show ?thesis by blast
qed

theorem align_preserves_fields_witness:
  "align_transcription_with_speakers exact_sub [transcript_segment 3 1 2 ''hello'']
        [speaker_segment ''SPEAKER_00'' 0 6]
      = Inr [transcript_segment 3 1 2 ''hello'' @ [(''speaker'', PStr ''SPEAKER_00'')]]
   \<and> map_of (transcript_segment 3 1 2 ''hello'' @ [(''speaker'', PStr ''SPEAKER_00'')]) ''text''
      = Some (PStr ''hello'')
   \<and> map_of (transcript_segment 3 1 2 ''hello'' @ [(''speaker'', PStr ''SPEAKER_00'')]) ''id''
      = Some (PNum 3)"
proof -
  let ?t = "transcript_segment 3 1 2 ''hello''"
  let ?out = "?t @ [(''speaker'', PStr ''SPEAKER_00'')]"
  have run: "align_transcription_with_speakers exact_sub [?t] [speaker_segment ''SPEAKER_00'' 0 6] = Inr [?out]"
    by (simp add: align_eval)
  have len: "0 < length [?t]" by simp
  note frame = align_preserves_fields [OF run len, THEN conjunct1, rule_format]
  have "map_of ([?out] ! 0) ''text'' = map_of ([?t] ! 0) ''text''"
    by (rule frame) simp
  moreover have "map_of ([?out] ! 0) ''id'' = map_of ([?t] ! 0) ''id''"
    by (rule frame) simp
  ultimately have "map_of ?out ''text'' = Some (PStr ''hello'')" "map_of ?out ''id'' = Some (PNum 3)"
    by (simp_all add: transcript_segment_def)
  with run show ?thesis by simp
qed

text \<open>
  C10. If the speaker segment that wins for the \<open>i\<close>-th transcript segment (the first one
  whose overlap, as the code computes it in floats, is the greatest) has a positive
  overlap and the empty string as its label, the \<open>i\<close>-th output carries the label
  \<^verbatim>\<open>"UNKNOWN"\<close>, not the empty string.
\<close>

theorem align_empty_label_unknown:
  assumes "\<forall>t\<in>set ts. is_interval t" "\<forall>s\<in>set ss. is_speaker_segment s" "i < length ts"
    and "first_max fsub (ts ! i) ss w" "0 < seg_overlap fsub (ts ! i) w" "seg_speaker w = PStr ''''"
  shows "\<exists>outs. align_transcription_with_speakers fsub ts ss = Inr outs
           \<and> map_of (outs ! i) ''speaker'' = Some (PStr ''UNKNOWN'')"
  using align_label_first_max [OF assms(1-5)] assms(6) by (simp add: speaker_label_def)

theorem align_empty_label_unknown_witness:
  "is_interval (transcript_segment 0 1 3 ''hi'')
   \<and> is_speaker_segment (speaker_segment ''SPEAKER_00'' 0 2)
   \<and> is_speaker_segment (speaker_segment '''' 1 4)
   \<and> first_max exact_sub (transcript_segment 0 1 3 ''hi'')
        [speaker_segment ''SPEAKER_00'' 0 2, speaker_segment '''' 1 4] (speaker_segment '''' 1 4)
   \<and> seg_overlap exact_sub (transcript_segment 0 1 3 ''hi'') (speaker_segment '''' 1 4) = 2
   \<and> seg_speaker (speaker_segment '''' 1 4) = PStr ''''
   \<and> (\<exists>outs. align_transcription_with_speakers exact_sub [transcript_segment 0 1 3 ''hi'']
                 [speaker_segment ''SPEAKER_00'' 0 2, speaker_segment '''' 1 4] = Inr outs
         \<and> map_of (outs ! 0) ''speaker'' = Some (PStr ''UNKNOWN''))"
proof -
  let ?t = "transcript_segment 0 1 3 ''hi''"
  let ?a = "speaker_segment ''SPEAKER_00'' 0 2"
  let ?b = "speaker_segment '''' 1 4"
  have t: "\<forall>t\<in>set [?t]. is_interval t" by (simp add: segment_eval)
  have s: "\<forall>s\<in>set [?a, ?b]. is_speaker_segment s" by (simp add: segment_eval)
  have oa: "seg_overlap exact_sub ?t ?a = 1" by (simp add: segment_eval)
  have ob: "seg_overlap exact_sub ?t ?b = 2" by (simp add: segment_eval)
  have fm: "first_max exact_sub ([?t] ! 0) [?a, ?b] ?b"
    by (simp add: first_max_Cons first_max_Nil oa ob)
  have pos: "0 < seg_overlap exact_sub ([?t] ! 0) ?b" by (simp add: ob)
  have lab: "seg_speaker ?b = PStr ''''" by (simp add: segment_eval)
  from align_empty_label_unknown [OF t s _ fm pos lab]
  have "\<exists>outs. align_transcription_with_speakers exact_sub [?t] [?a, ?b] = Inr outs
         \<and> map_of (outs ! 0) ''speaker'' = Some (PStr ''UNKNOWN'')"
    by simp
  with t s ob fm lab show ?thesis by simp
qed

section \<open>Properties of the extractor\<close>

subsection \<open>Shape of a fenced match\<close>

lemma lstrip_split: "\<exists>ws. s = ws @ lstrip s \<and> (\<forall>c\<in>set ws. is_space c)"
proof -
  have "s = takeWhile is_space s @ lstrip s" by (simp add: lstrip_def)
  moreover have "\<forall>c\<in>set (takeWhile is_space s). is_space c" by (auto dest: set_takeWhileD)
  ultimately show ?thesis by blast
qed

lemma lazy_body_split:
  "lazy_body close s = Some (body, rest) \<Longrightarrow>
     \<exists>ws. s = body @ close # ws @ ''```'' @ rest \<and> (\<forall>c\<in>set ws. is_space c)"
proof (induction s arbitrary: body)
  case Nil
  then show ?case by simp
next
  case (Cons c s)
  show ?case
  proof (cases "c = close \<and> take 3 (lstrip s) = ''```''")
    case True
    with Cons.prems have b: "body = []" and r: "rest = drop 3 (lstrip s)" by simp_all
    have "take 3 (lstrip s) @ drop 3 (lstrip s) = lstrip s" by (rule append_take_drop_id)
    with True r have "lstrip s = ''```'' @ rest" by simp
    moreover obtain ws where "s = ws @ lstrip s" "\<forall>c\<in>set ws. is_space c"
      using lstrip_split by blast
    ultimately have "c # s = body @ close # ws @ ''```'' @ rest \<and> (\<forall>c\<in>set ws. is_space c)"
      using True b by simp
    then show ?thesis by blast
  next
    case False
    with Cons.prems obtain body' where b: "lazy_body close s = Some (body', rest)" "body = c # body'"
      by (auto split: option.splits)
    from Cons.IH [OF b(1)] obtain ws where
      "s = body' @ close # ws @ ''```'' @ rest" "\<forall>c\<in>set ws. is_space c"
      by blast
    then have "c # s = body @ close # ws @ ''```'' @ rest \<and> (\<forall>c\<in>set ws. is_space c)"
      using b(2) by simp
    then show ?thesis by blast
  qed
qed

text \<open>
  A match is the opening fence, the optional tag, whitespace, group 1, whitespace and the
  closing fence.
\<close>

lemma match_markdown_split:
  assumes "match_markdown s = Some (g, rest)"
  shows "\<exists>tag ws1 ws2. s = ''```'' @ tag @ ws1 @ g @ ws2 @ ''```'' @ rest
           \<and> (tag = [] \<or> tag = ''json'')
           \<and> (\<forall>c\<in>set ws1. is_space c) \<and> (\<forall>c\<in>set ws2. is_space c)"
proof -
  from assms have fence: "take 3 s = ''```''"
    by (simp add: match_markdown_def split: if_splits)
  define tag where "tag = (if take 4 (drop 3 s) = ''json'' then ''json'' else [])"
  define after_tag where
    "after_tag = (if take 4 (drop 3 s) = ''json'' then drop 4 (drop 3 s) else drop 3 s)"
  have "take 4 (drop 3 s) @ drop 4 (drop 3 s) = drop 3 s" by (rule append_take_drop_id)
  then have d: "drop 3 s = tag @ after_tag"
    unfolding tag_def after_tag_def by (cases "take 4 (drop 3 s) = ''json''") simp_all
  have "take 3 s @ drop 3 s = s" by (rule append_take_drop_id)
  with fence d have s: "s = ''```'' @ tag @ after_tag" by simp
  obtain ws1 where ws1: "after_tag = ws1 @ lstrip after_tag" "\<forall>c\<in>set ws1. is_space c"
    using lstrip_split by blast
  from assms fence have mm:
    "(case lstrip after_tag of
        [] \<Rightarrow> None
      | c # s' \<Rightarrow>
          if c = CHR ''{'' then
            (case lazy_body (CHR ''}'') s' of
               None \<Rightarrow> None
             | Some (body, rest) \<Rightarrow> Some (c # body @ ''}'', rest))
          else if c = CHR ''['' then
            (case lazy_body (CHR '']'') s' of
               None \<Rightarrow> None
             | Some (body, rest) \<Rightarrow> Some (c # body @ '']'', rest))
          else None) = Some (g, rest)"
    unfolding match_markdown_def after_tag_def Let_def by (simp only: HOL.simp_thms if_True)
  obtain c s' where c: "lstrip after_tag = c # s'"
    using mm by (cases "lstrip after_tag") simp_all
  have "\<exists>body close. lazy_body close s' = Some (body, rest) \<and> g = c # body @ [close]"
  proof (cases "c = CHR ''{''")
    case True
    with mm c obtain body where "lazy_body (CHR ''}'') s' = Some (body, rest)" "g = c # body @ ''}''"
      by (auto split: option.splits)
    then show ?thesis by blast
  next
    case False
    with mm c obtain body where "lazy_body (CHR '']'') s' = Some (body, rest)" "g = c # body @ '']''"
      by (auto split: option.splits if_splits)
    then show ?thesis by blast
  qed
  then obtain body close where b: "lazy_body close s' = Some (body, rest)"
    and g: "g = c # body @ [close]"
    by blast
  from lazy_body_split [OF b] obtain ws2 where
    ws2: "s' = body @ close # ws2 @ ''```'' @ rest" "\<forall>c\<in>set ws2. is_space c"
    by blast
  have "after_tag = ws1 @ g @ ws2 @ ''```'' @ rest"
    by (subst ws1(1)) (simp add: c ws2(1) g)
  with s have "s = ''```'' @ tag @ ws1 @ g @ ws2 @ ''```'' @ rest" by simp
  moreover have "tag = [] \<or> tag = ''json''" by (simp add: tag_def)
  ultimately show ?thesis using ws1(2) ws2(2) by blast
qed

lemma match_markdown_fenced:
  assumes "match_markdown s = Some (g, rest)"
  shows "\<exists>m. s = m @ rest \<and> take 3 m = ''```'' \<and> take 3 (rev m) = ''```''"
proof -
  from match_markdown_split [OF assms] obtain tag ws1 ws2 where
    "s = ''```'' @ tag @ ws1 @ g @ ws2 @ ''```'' @ rest"
    by blast
  then have "s = (''```'' @ tag @ ws1 @ g @ ws2 @ ''```'') @ rest
      \<and> take 3 (''```'' @ tag @ ws1 @ g @ ws2 @ ''```'') = ''```''
      \<and> take 3 (rev (''```'' @ tag @ ws1 @ g @ ws2 @ ''```'')) = ''```''"
    by simp
  then show ?thesis by blast
qed

text \<open>Every match of \<open>finditer_from\<close> is a fenced block of the string, at its position.\<close>

lemma finditer_from_match:
  "(start, end', g) \<in> set (finditer_from pos s) \<Longrightarrow>
     \<exists>pre m rest. s = pre @ m @ rest \<and> start = pos + length pre \<and> end' = start + length m
        \<and> match_markdown (m @ rest) = Some (g, rest)"
proof (induction pos s rule: finditer_from.induct)
  case (1 pos s)
  show ?case
  proof (cases "match_markdown s")
    case None
    show ?thesis
    proof (cases s)
      case Nil
      with None "1.prems" show ?thesis by (simp add: finditer_from.simps [of pos "[]"])
    next
      case (Cons c s')
      with None "1.prems" have "(start, end', g) \<in> set (finditer_from (Suc pos) s')"
        by (simp add: finditer_from.simps [of pos "c # s'"])
      from "1.IH"(1) [OF None Cons this] obtain pre m rest where
        "s' = pre @ m @ rest" "start = Suc pos + length pre" "end' = start + length m"
        "match_markdown (m @ rest) = Some (g, rest)"
        by blast
      then have "s = (c # pre) @ m @ rest \<and> start = pos + length (c # pre) \<and> end' = start + length m
        \<and> match_markdown (m @ rest) = Some (g, rest)"
        using Cons by simp
      then show ?thesis by blast
    qed
  next
    case (Some p)
    obtain g' rest' where p: "p = (g', rest')" by (cases p)
    from match_markdown_fenced [OF Some [unfolded p]] obtain m' where m': "s = m' @ rest'"
      by blast
    then have len: "length s - length rest' = length m'" by simp
    from "1.prems" Some p have
      "(start, end', g) = (pos, pos + length m', g')
       \<or> (start, end', g) \<in> set (finditer_from (pos + length m') rest')"
      by (simp add: finditer_from.simps [of pos s] len)
    then show ?thesis
    proof
      assume "(start, end', g) = (pos, pos + length m', g')"
      then have "s = [] @ m' @ rest' \<and> start = pos + length ([]::string) \<and> end' = start + length m'
        \<and> match_markdown (m' @ rest') = Some (g, rest')"
        using m' Some p by simp
      then show ?thesis by blast
    next
      assume "(start, end', g) \<in> set (finditer_from (pos + length m') rest')"
      then have "(start, end', g) \<in> set (finditer_from (pos + (length s - length rest')) rest')"
        by (simp add: len)
      from "1.IH"(2) [OF Some p [symmetric] this] obtain pre m rest where
        h: "rest' = pre @ m @ rest" "start = pos + (length s - length rest') + length pre"
        "end' = start + length m" "match_markdown (m @ rest) = Some (g, rest)"
        by blast
      have "s = (m' @ pre) @ m @ rest \<and> start = pos + length (m' @ pre) \<and> end' = start + length m
        \<and> match_markdown (m @ rest) = Some (g, rest)"
        using h m' len by simp
      then show ?thesis by blast
    qed
  qed
qed

lemma finditer_fenced:
  assumes "(start, end', g) \<in> set (finditer text)"
  shows "take 3 (slice start end' text) = ''```'' \<and> take 3 (rev (slice start end' text)) = ''```''"
proof -
  from assms have "(start, end', g) \<in> set (finditer_from 0 text)" by (simp add: finditer_def)
  from finditer_from_match [OF this] obtain pre m rest where
    h: "text = pre @ m @ rest" "start = length pre" "end' = start + length m"
    "match_markdown (m @ rest) = Some (g, rest)"
    by auto
  from match_markdown_fenced [OF h(4)] obtain m' where "m @ rest = m' @ rest"
    "take 3 m' = ''```''" "take 3 (rev m') = ''```''"
    by blast
  then have m: "take 3 m = ''```''" "take 3 (rev m) = ''```''" by simp_all
  have "slice start end' text = m" by (simp add: slice_def h(1,2,3))
  with m show ?thesis by simp
qed

subsection \<open>What the loops keep\<close>

lemma markdown_parts_failed_kept:
  "markdown_parts loads text ms last_end = Inr parts \<Longrightarrow> (start, end', g) \<in> set ms \<Longrightarrow>
     loads g = Inl JSONDecodeError \<Longrightarrow> Text (slice start end' text) \<in> set parts"
proof (induction ms arbitrary: last_end parts)
  case Nil
  then show ?case by simp
next
  case (Cons m ms)
  obtain a b json_str where m: "m = (a, b, json_str)" by (cases m)
  from Cons.prems(1) m obtain rest where rest: "markdown_parts loads text ms b = Inr rest"
    by (auto simp: Let_def split: sum.splits exn.splits)
  show ?case
  proof (cases "(start, end', g) = m")
    case True
    with m Cons.prems(3) have "loads json_str = Inl JSONDecodeError" "a = start" "b = end'"
      by simp_all
    with Cons.prems(1) m rest show ?thesis by (auto simp: Let_def)
  next
    case False
    with Cons.prems(2) have "(start, end', g) \<in> set ms" by simp
    from Cons.IH [OF rest this Cons.prems(3)] have "Text (slice start end' text) \<in> set rest" .
    with Cons.prems(1) m rest show ?thesis
      by (auto simp: Let_def split: sum.splits exn.splits)
  qed
qed

lemma brace_scan_recorded:
  "brace_scan loads text i s brace_count start_idx = Inr objs \<Longrightarrow> (a, b, v) \<in> set objs \<Longrightarrow>
     loads (slice a b text) = Inr v"
proof (induction s arbitrary: i brace_count start_idx objs)
  case Nil
  then show ?case by simp
next
  case (Cons c s)
  show ?case
  proof (cases "c = CHR ''}'' \<and> brace_count - 1 = 0 \<and> start_idx \<noteq> - 1")
    case False
    with Cons.prems(1) obtain i' bc' st' where
      "brace_scan loads text i' s bc' st' = Inr objs"
      by (auto split: if_splits)
    from Cons.IH [OF this Cons.prems(2)] show ?thesis .
  next
    case True
    show ?thesis
    proof (cases "loads (slice (nat start_idx) (i + 1) text)")
      case (Inl x)
      with True Cons.prems(1) have "brace_scan loads text (i + 1) s 0 (- 1) = Inr objs"
        by (cases x) simp_all
      from Cons.IH [OF this Cons.prems(2)] show ?thesis .
    next
      case (Inr parsed)
      with True Cons.prems(1) obtain rest where
        rest: "brace_scan loads text (i + 1) s 0 (- 1) = Inr rest"
        and objs: "objs = (nat start_idx, i + 1, parsed) # rest"
        by (auto split: sum.splits)
      show ?thesis
      proof (cases "(a, b, v) = (nat start_idx, i + 1, parsed)")
        case True
        with Inr show ?thesis by simp
      next
        case False
        with objs Cons.prems(2) have "(a, b, v) \<in> set rest" by auto
        from Cons.IH [OF rest this] show ?thesis .
      qed
    qed
  qed
qed

lemma object_parts_json:
  "Json v \<in> set (object_parts text objs last_end) \<Longrightarrow> \<exists>a b. (a, b, v) \<in> set objs"
proof (induction objs arbitrary: last_end)
  case Nil
  then show ?case by (simp split: if_splits)
next
  case (Cons obj objs)
  obtain a b w where obj: "obj = (a, b, w)" by (cases obj)
  from Cons.prems obj have "v = w \<or> Json v \<in> set (object_parts text objs b)"
    by (auto split: if_splits)
  then show ?case
  proof
    assume "v = w"
    with obj show ?thesis by auto
  next
    assume "Json v \<in> set (object_parts text objs b)"
    from Cons.IH [OF this] show ?thesis by auto
  qed
qed

subsection \<open>Exceptions\<close>





lemma brace_scan_exn:
  "brace_scan loads text i s brace_count start_idx = Inl e \<Longrightarrow>
     e = OtherException \<and> (\<exists>a b. loads (slice a b text) = Inl OtherException)"
proof (induction s arbitrary: i brace_count start_idx)
  case Nil
  then show ?case by simp
next
  case (Cons c s)
  show ?case
  proof (cases "c = CHR ''{''")
    case True
    with Cons.prems have
      "brace_scan loads text (i + 1) s (brace_count + 1) (if brace_count = 0 then int i else start_idx) = Inl e"
      by simp
    then show ?thesis by (rule Cons.IH)
  next
    case nopen: False
    show ?thesis
    proof (cases "c = CHR ''}''")
      case False
      with nopen Cons.prems have "brace_scan loads text (i + 1) s brace_count start_idx = Inl e"
        by simp
      then show ?thesis by (rule Cons.IH)
    next
      case True
      show ?thesis
      proof (cases "brace_count - 1 = 0 \<and> start_idx \<noteq> - 1")
        case False
        with True nopen Cons.prems have
          "brace_scan loads text (i + 1) s (brace_count - 1) start_idx = Inl e"
          by auto
        then show ?thesis by (rule Cons.IH)
      next
        case cand: True
        show ?thesis
        proof (cases "loads (slice (nat start_idx) (i + 1) text)")
          case (Inr parsed)
          with cand True nopen Cons.prems have "brace_scan loads text (i + 1) s 0 (- 1) = Inl e"
            by (simp split: sum.splits)
          then show ?thesis by (rule Cons.IH)
        next
          case (Inl x)
          show ?thesis
          proof (cases x)
            case JSONDecodeError
            with Inl cand True nopen Cons.prems have "brace_scan loads text (i + 1) s 0 (- 1) = Inl e"
              by simp
            then show ?thesis by (rule Cons.IH)
          next
            case OtherException
            with Inl cand True nopen Cons.prems show ?thesis by auto
          qed
        qed
      qed
    qed
  qed
qed






subsection \<open>The chunks and the returned string\<close>

text \<open>
  The string the function returns is the join of the serialised chunks, for every encoder
  that never prints the empty string (as \<^verbatim>\<open>json.dumps\<close> never does).
\<close>

lemma render_nonempty:
  "\<forall>v. dumps v \<noteq> [] \<Longrightarrow> (render dumps c \<noteq> []) = nonempty_chunk c"
  by (cases c) simp_all

lemma parse_mixed_renders_chunks:
  assumes "\<forall>v. dumps v \<noteq> []"
  shows "parse_mixed_json_and_text loads dumps raw
       = map_sum id (\<lambda>chunks. join [CHR 0x0A, CHR 0x0A] (map (render dumps) chunks))
           (extract_chunks loads raw)"
proof -
  have "filter (\<lambda>p. p \<noteq> []) (map (render dumps) parts)
      = map (render dumps) (filter nonempty_chunk parts)" for parts :: "'a chunk list"
    by (simp add: filter_map comp_def render_nonempty [OF assms])
  then show ?thesis
    unfolding parse_mixed_json_and_text_def extract_chunks_def Let_def
    by (simp split: sum.splits exn.splits)
qed

subsection \<open>An integer literal beyond the digit limit\<close>






subsection \<open>Whitespace and coverage\<close>

lemma lstrip_all_space: "(\<forall>c\<in>set ws. is_space c) \<Longrightarrow> lstrip (ws @ s) = lstrip s"
  by (simp add: lstrip_def dropWhile_append2)

lemma lstrip_empty_iff: "lstrip s = [] \<longleftrightarrow> (\<forall>c\<in>set s. is_space c)"
  by (simp add: lstrip_def dropWhile_eq_Nil_conv)

lemma lstrip_head: "lstrip s = c # s' \<Longrightarrow> \<not> is_space c"
  unfolding lstrip_def by (metis hd_dropWhile list.sel(1) list.simps(3))

lemma lstrip_id: "s \<noteq> [] \<Longrightarrow> \<not> is_space (hd s) \<Longrightarrow> lstrip s = s"
  by (cases s) (simp_all add: lstrip_def)

lemma lstrip_append: "lstrip s \<noteq> [] \<Longrightarrow> lstrip (s @ r) = lstrip s @ r"
  unfolding lstrip_def by (induction s) auto

text \<open>A string is whitespace, its trimmed form, whitespace.\<close>

lemma strip_split:
  "\<exists>l r. s = l @ strip s @ r \<and> (\<forall>c\<in>set l. is_space c) \<and> (\<forall>c\<in>set r. is_space c)"
proof -
  obtain l where l: "s = l @ lstrip s" "\<forall>c\<in>set l. is_space c"
    using lstrip_split by blast
  obtain r' where r': "rev (lstrip s) = r' @ lstrip (rev (lstrip s))" "\<forall>c\<in>set r'. is_space c"
    using lstrip_split by blast
  from r'(1) have "rev (rev (lstrip s)) = rev (r' @ lstrip (rev (lstrip s)))" by simp
  then have "lstrip s = strip s @ rev r'" by (simp add: strip_def)
  with l(1) have "s = l @ strip s @ rev r'" by simp
  moreover have "\<forall>c\<in>set (rev r'). is_space c" using r'(2) by simp
  ultimately show ?thesis using l(2) by blast
qed

lemma lstrip_strip: "\<exists>r. lstrip s = strip s @ r \<and> (\<forall>c\<in>set r. is_space c)"
proof -
  obtain r' where r': "rev (lstrip s) = r' @ lstrip (rev (lstrip s))" "\<forall>c\<in>set r'. is_space c"
    using lstrip_split by blast
  from r'(1) have "rev (rev (lstrip s)) = rev (r' @ lstrip (rev (lstrip s)))" by simp
  then have "lstrip s = strip s @ rev r'" by (simp add: strip_def)
  moreover have "\<forall>c\<in>set (rev r'). is_space c" using r'(2) by simp
  ultimately show ?thesis by blast
qed

lemma strip_head: "strip s \<noteq> [] \<Longrightarrow> \<not> is_space (hd (strip s))"
proof -
  assume ne: "strip s \<noteq> []"
  obtain r where r: "lstrip s = strip s @ r" using lstrip_strip by blast
  with ne obtain c s' where c: "lstrip s = c # s'" "hd (strip s) = c"
    by (cases "strip s") auto
  from lstrip_head [OF c(1)] c(2) show ?thesis by simp
qed

lemma strip_empty: "strip s = [] \<Longrightarrow> \<forall>c\<in>set s. is_space c"
proof -
  assume e: "strip s = []"
  obtain l r where "s = l @ strip s @ r" "\<forall>c\<in>set l. is_space c" "\<forall>c\<in>set r. is_space c"
    using strip_split by blast
  with e show ?thesis by auto
qed

lemma covers_Nil_space: "(\<forall>c\<in>set s. is_space c) \<Longrightarrow> covers [] s"
  by (simp add: lstrip_empty_iff)

lemma covers_leading: "(\<forall>c\<in>set ws. is_space c) \<Longrightarrow> covers ps (ws @ s) = covers ps s"
  by (cases ps) (simp_all add: lstrip_all_space)

text \<open>A piece that starts with a visible character is consumed from the head.\<close>

lemma covers_piece:
  assumes "\<forall>c\<in>set ws. is_space c" "p \<noteq> []" "\<not> is_space (hd p)"
  shows "covers (p # ps) (ws @ p @ rest) = covers ps rest"
proof -
  have "lstrip (ws @ p @ rest) = lstrip (p @ rest)"
    using assms(1) by (rule lstrip_all_space)
  also have "\<dots> = p @ rest"
    using assms(2,3) by (intro lstrip_id) simp_all
  finally show ?thesis by simp
qed

lemma covers_trailing:
  "covers ps s \<Longrightarrow> (\<forall>c\<in>set r. is_space c) \<Longrightarrow> covers ps (s @ r)"
proof (induction ps arbitrary: s)
  case Nil
  then show ?case by (auto simp: lstrip_empty_iff)
next
  case (Cons p ps)
  from Cons.prems(1) have t: "take (length p) (lstrip s) = p"
    and c: "covers ps (drop (length p) (lstrip s))"
    by simp_all
  show ?case
  proof (cases "lstrip s = []")
    case True
    then have "\<forall>c\<in>set (s @ r). is_space c"
      using Cons.prems(2) by (auto simp: lstrip_empty_iff)
    then have e: "lstrip (s @ r) = []" by (simp only: lstrip_empty_iff)
    from t True have "p = []" by simp
    with c True e show ?thesis by simp
  next
    case False
    then have a: "lstrip (s @ r) = lstrip s @ r" by (rule lstrip_append)
    have "length (take (length p) (lstrip s)) = length p" by (simp only: t)
    then have "length p \<le> length (lstrip s)" by simp
    then have "take (length p) (lstrip s @ r) = take (length p) (lstrip s)"
      "drop (length p) (lstrip s @ r) = drop (length p) (lstrip s) @ r"
      by simp_all
    with t Cons.IH [OF c Cons.prems(2)] a show ?thesis by simp
  qed
qed

lemma covers_strip: "covers ps (strip s) \<Longrightarrow> covers ps s"
proof -
  assume c: "covers ps (strip s)"
  obtain l r where s: "s = l @ strip s @ r" and l: "\<forall>c\<in>set l. is_space c"
    and r: "\<forall>c\<in>set r. is_space c"
    using strip_split by blast
  from c r have "covers ps (strip s @ r)" by (rule covers_trailing)
  with l have "covers ps (l @ strip s @ r)" by (simp add: covers_leading)
  with s show ?thesis by simp
qed

lemma covers_strip_single: "covers [strip s] (strip s)"
proof (cases "strip s = []")
  case True
  then show ?thesis by (simp add: lstrip_def)
next
  case False
  then have "lstrip (strip s) = strip s" using strip_head by (intro lstrip_id)
  then show ?thesis by (simp add: lstrip_def)
qed

subsection \<open>The spans of the brace scan\<close>

lemma is_space_brace: "\<not> is_space (CHR ''{'')"
  by (simp add: is_space_def)

lemma brace_scan_spans:
  assumes "brace_scan loads text i s brace_count start_idx = Inr objs"
    and "text = pre @ s" "length pre = i" "lo \<le> i"
    and "start_idx = - 1 \<or> (0 \<le> start_idx \<and> lo \<le> nat start_idx \<and> nat start_idx < i
           \<and> text ! nat start_idx = CHR ''{'')"
  shows "spans_ok text lo objs"
  using assms
proof (induction s arbitrary: i brace_count start_idx objs pre lo)
  case Nil
  then show ?case by auto
next
  case (Cons c s)
  have tx: "text = (pre @ [c]) @ s" and len: "length (pre @ [c]) = i + 1" and lo: "lo \<le> i + 1"
    using Cons.prems(2,3,4) by simp_all
  have ci: "text ! i = c" using Cons.prems(2,3) by (simp add: nth_append)
  have weaken: "start_idx = - 1 \<or> (0 \<le> start_idx \<and> lo \<le> nat start_idx \<and> nat start_idx < i + 1
           \<and> text ! nat start_idx = CHR ''{'')"
    using Cons.prems(5) by auto
  show ?case
  proof (cases "c = CHR ''{''")
    case True
    let ?st = "if brace_count = 0 then int i else start_idx"
    from True Cons.prems(1) have run:
      "brace_scan loads text (i + 1) s (brace_count + 1) ?st = Inr objs"
      by simp
    have "?st = - 1 \<or> (0 \<le> ?st \<and> lo \<le> nat ?st \<and> nat ?st < i + 1
           \<and> text ! nat ?st = CHR ''{'')"
      using weaken Cons.prems(4) ci True by auto
    from Cons.IH [OF run tx len lo this] show ?thesis .
  next
    case nobrace: False
    show ?thesis
    proof (cases "c = CHR ''}'' \<and> brace_count - 1 = 0 \<and> start_idx \<noteq> - 1")
      case False
      with nobrace Cons.prems(1) obtain bc' where
        "brace_scan loads text (i + 1) s bc' start_idx = Inr objs"
        by (auto split: if_splits)
      from Cons.IH [OF this tx len lo weaken] show ?thesis .
    next
      case True
      with Cons.prems(5) have st: "lo \<le> nat start_idx" "nat start_idx < i"
        "text ! nat start_idx = CHR ''{''"
        by auto
      have reset: "(- 1 :: int) = - 1 \<or> (0 \<le> (- 1 :: int) \<and> n \<le> nat (- 1) \<and> nat (- 1) < i + 1
           \<and> text ! nat (- 1) = CHR ''{'')" for n
        by simp
      show ?thesis
      proof (cases "loads (slice (nat start_idx) (i + 1) text)")
        case (Inl x)
        with True nobrace Cons.prems(1) have "brace_scan loads text (i + 1) s 0 (- 1) = Inr objs"
          by (cases x) simp_all
        from Cons.IH [OF this tx len lo reset] show ?thesis .
      next
        case (Inr parsed)
        with True nobrace Cons.prems(1) obtain rest where
          rest: "brace_scan loads text (i + 1) s 0 (- 1) = Inr rest"
          and objs: "objs = (nat start_idx, i + 1, parsed) # rest"
          by (auto split: sum.splits)
        from Cons.IH [OF rest tx len order_refl reset] have "spans_ok text (i + 1) rest" .
        moreover have "i + 1 \<le> length text" using Cons.prems(2,3) by simp
        ultimately show ?thesis using st objs by (simp add: is_space_brace)
      qed
    qed
  qed
qed

lemma drop_span_split:
  assumes "lo \<le> a" "a \<le> b" "b \<le> length text"
  shows "drop lo text = slice lo a text @ slice a b text @ drop b text"
proof -
  have "drop lo text = take (a - lo) (drop lo text) @ drop (a - lo) (drop lo text)"
    by (rule append_take_drop_id [symmetric])
  also have "drop (a - lo) (drop lo text) = drop a text"
    using assms(1) by simp
  also have "drop a text = take (b - a) (drop a text) @ drop (b - a) (drop a text)"
    by (rule append_take_drop_id [symmetric])
  also have "drop (b - a) (drop a text) = drop b text"
    using assms(2) by simp
  finally show ?thesis by (simp add: slice_def)
qed

lemma slice_head:
  assumes "a < b" "b \<le> length text"
  shows "slice a b text \<noteq> [] \<and> hd (slice a b text) = text ! a"
proof -
  from assms have "drop a text \<noteq> []" by simp
  then obtain c s where cs: "drop a text = c # s" by (cases "drop a text") auto
  from assms have "hd (drop a text) = text ! a" by (simp add: hd_drop_conv_nth)
  with cs have c: "c = text ! a" by simp
  from assms(1) obtain n where n: "b - a = Suc n" by (cases "b - a") auto
  show ?thesis by (simp add: slice_def cs n c)
qed

text \<open>The chunks of the brace scan read as pieces that cover the text from \<open>last_end\<close> on.\<close>

lemma object_parts_covers:
  assumes "spans_ok text last_end objs"
    and "\<forall>(a, b, v)\<in>set objs. loads (slice a b text) = Inr v"
  shows "\<exists>pieces. list_all2 (reads_as loads) (object_parts text objs last_end) pieces
           \<and> covers pieces (drop last_end text)"
  using assms
proof (induction objs arbitrary: last_end)
  case Nil
  let ?g = "drop last_end text"
  show ?case
  proof (cases "last_end < length text \<and> strip ?g \<noteq> []")
    case True
    have "covers [strip ?g] ?g" using covers_strip_single by (rule covers_strip)
    moreover have "list_all2 (reads_as loads) (object_parts text [] last_end) [strip ?g]"
      using True by simp
    ultimately show ?thesis by blast
  next
    case False
    then have "?g = [] \<or> strip ?g = []" by auto
    then have "\<forall>c\<in>set ?g. is_space c" using strip_empty by fastforce
    then have "covers [] ?g" by (rule covers_Nil_space)
    moreover have "list_all2 (reads_as loads) (object_parts text [] last_end) []"
      using False by simp
    ultimately show ?thesis by blast
  qed
next
  case (Cons obj objs)
  obtain a b v where obj: "obj = (a, b, v)" by (cases obj)
  from Cons.prems(1) obj have ord: "last_end \<le> a" "a < b" "b \<le> length text"
    and brace: "\<not> is_space (text ! a)" and rest_ok: "spans_ok text b objs"
    by simp_all
  from Cons.prems(2) obj have v: "loads (slice a b text) = Inr v"
    and rest_v: "\<forall>(a, b, v)\<in>set objs. loads (slice a b text) = Inr v"
    by simp_all
  from Cons.IH [OF rest_ok rest_v] obtain ps where
    ps: "list_all2 (reads_as loads) (object_parts text objs b) ps" "covers ps (drop b text)"
    by blast
  let ?gap = "slice last_end a text"
  let ?span = "slice a b text"
  have split: "drop last_end text = ?gap @ ?span @ drop b text"
    using ord by (intro drop_span_split) simp_all
  from slice_head [OF ord(2,3)] brace have span: "?span \<noteq> []" "\<not> is_space (hd ?span)"
    by simp_all
  have gap_empty: "strip ?gap = []" if "\<not> a > last_end"
    using that ord(1) by (simp add: slice_def strip_def lstrip_def)
  show ?case
  proof (cases "strip ?gap = []")
    case True
    then have sp: "\<forall>c\<in>set ?gap. is_space c" by (rule strip_empty)
    have "covers (?span # ps) (?gap @ ?span @ drop b text) = covers ps (drop b text)"
      using sp span by (rule covers_piece)
    with ps(2) split have "covers (?span # ps) (drop last_end text)" by simp
    moreover have "list_all2 (reads_as loads) (object_parts text (obj # objs) last_end) (?span # ps)"
      using True obj v ps(1) by simp
    ultimately show ?thesis by blast
  next
    case False
    with gap_empty have gt: "a > last_end" by blast
    obtain l r where g: "?gap = l @ strip ?gap @ r" and l: "\<forall>c\<in>set l. is_space c"
      and r: "\<forall>c\<in>set r. is_space c"
      using strip_split by blast
    have "covers (strip ?gap # ?span # ps) (l @ strip ?gap @ (r @ ?span @ drop b text))
        = covers (?span # ps) (r @ ?span @ drop b text)"
      using l False strip_head [OF False] by (rule covers_piece)
    also have "\<dots> = covers ps (drop b text)"
      using r span by (rule covers_piece)
    finally have "covers (strip ?gap # ?span # ps) (l @ strip ?gap @ (r @ ?span @ drop b text))"
      using ps(2) by simp
    moreover have "drop last_end text = l @ strip ?gap @ (r @ ?span @ drop b text)"
      by (subst split, subst g) simp
    ultimately have "covers (strip ?gap # ?span # ps) (drop last_end text)" by simp
    moreover have "list_all2 (reads_as loads) (object_parts text (obj # objs) last_end)
        (strip ?gap # ?span # ps)"
      using False gt obj v ps(1) by simp
    ultimately show ?thesis by blast
  qed
qed

subsection \<open>The spans of the fenced-block scan\<close>

lemma take3_lstrip_append:
  assumes "take 3 (lstrip m) = ''```''"
  shows "take 3 (lstrip (m @ rest)) = ''```''"
proof -
  from assms have ne: "lstrip m \<noteq> []" by auto
  have "length (take 3 (lstrip m)) = 3" by (simp only: assms) simp
  then have "3 \<le> length (lstrip m)" by simp
  then have "take 3 (lstrip m @ rest) = take 3 (lstrip m)" by simp
  with assms show ?thesis by (simp add: lstrip_append [OF ne])
qed

text \<open>A match does not depend on what follows it.\<close>

lemma lazy_body_alone:
  "lazy_body close s = Some (body, rest) \<Longrightarrow> \<exists>m. s = m @ rest \<and> lazy_body close m = Some (body, [])"
proof (induction s arbitrary: body)
  case Nil
  then show ?case by simp
next
  case (Cons c s)
  show ?case
  proof (cases "c = close \<and> take 3 (lstrip s) = ''```''")
    case True
    with Cons.prems have b: "body = []" and r: "rest = drop 3 (lstrip s)" by simp_all
    obtain ws where ws: "s = ws @ lstrip s" "\<forall>c\<in>set ws. is_space c"
      using lstrip_split by blast
    have "take 3 (lstrip s) @ drop 3 (lstrip s) = lstrip s" by (rule append_take_drop_id)
    with True r have l: "lstrip s = ''```'' @ rest" by simp
    have s: "s = (ws @ ''```'') @ rest" by (subst ws(1), subst l) simp
    have "lstrip (ws @ ''```'') = ''```''"
      using ws(2) by (simp add: lstrip_all_space) (simp add: lstrip_def is_space_def)
    then have "lazy_body close (c # ws @ ''```'') = Some ([], [])"
      using True by simp
    with s b have "c # s = (c # ws @ ''```'') @ rest \<and> lazy_body close (c # ws @ ''```'') = Some (body, [])"
      by simp
    then show ?thesis by blast
  next
    case False
    with Cons.prems obtain body' where b: "lazy_body close s = Some (body', rest)" "body = c # body'"
      by (auto split: option.splits)
    from Cons.IH [OF b(1)] obtain m where m: "s = m @ rest" "lazy_body close m = Some (body', [])"
      by blast
    have "\<not> (c = close \<and> take 3 (lstrip m) = ''```'')"
      using False m(1) take3_lstrip_append by blast
    then have "lazy_body close (c # m) = Some (body, [])"
      using m(2) b(2) by simp
    with m(1) have "c # s = (c # m) @ rest \<and> lazy_body close (c # m) = Some (body, [])"
      by simp
    then show ?thesis by blast
  qed
qed

lemma match_markdown_alone:
  assumes "match_markdown s = Some (g, rest)"
  shows "\<exists>m. s = m @ rest \<and> match_markdown m = Some (g, []) \<and> take 3 m = ''```''"
proof -
  from assms have fence: "take 3 s = ''```''"
    by (simp add: match_markdown_def split: if_splits)
  define tag where "tag = (if take 4 (drop 3 s) = ''json'' then ''json'' else [])"
  define after_tag where
    "after_tag = (if take 4 (drop 3 s) = ''json'' then drop 4 (drop 3 s) else drop 3 s)"
  have "take 4 (drop 3 s) @ drop 4 (drop 3 s) = drop 3 s" by (rule append_take_drop_id)
  then have d: "drop 3 s = tag @ after_tag"
    unfolding tag_def after_tag_def by (cases "take 4 (drop 3 s) = ''json''") simp_all
  have "take 3 s @ drop 3 s = s" by (rule append_take_drop_id)
  with fence d have s: "s = ''```'' @ tag @ after_tag" by simp
  obtain ws1 where ws1: "after_tag = ws1 @ lstrip after_tag" "\<forall>c\<in>set ws1. is_space c"
    using lstrip_split by blast
  from assms fence have mm:
    "(case lstrip after_tag of
        [] \<Rightarrow> None
      | c # s' \<Rightarrow>
          if c = CHR ''{'' then
            (case lazy_body (CHR ''}'') s' of
               None \<Rightarrow> None
             | Some (body, rest) \<Rightarrow> Some (c # body @ ''}'', rest))
          else if c = CHR ''['' then
            (case lazy_body (CHR '']'') s' of
               None \<Rightarrow> None
             | Some (body, rest) \<Rightarrow> Some (c # body @ '']'', rest))
          else None) = Some (g, rest)"
    unfolding match_markdown_def after_tag_def Let_def by (simp only: HOL.simp_thms if_True)
  obtain c s' where c: "lstrip after_tag = c # s'"
    using mm by (cases "lstrip after_tag") simp_all
  have cns: "\<not> is_space c" using c by (rule lstrip_head)
  have "\<exists>body close. lazy_body close s' = Some (body, rest) \<and> g = c # body @ [close]
      \<and> (c = CHR ''{'' \<and> close = CHR ''}'' \<or> c \<noteq> CHR ''{'' \<and> c = CHR ''['' \<and> close = CHR '']'')"
  proof (cases "c = CHR ''{''")
    case True
    with mm c obtain body where "lazy_body (CHR ''}'') s' = Some (body, rest)" "g = c # body @ ''}''"
      by (auto split: option.splits)
    with True show ?thesis by blast
  next
    case False
    with mm c obtain body where "lazy_body (CHR '']'') s' = Some (body, rest)" "g = c # body @ '']''"
      "c = CHR ''[''"
      by (auto split: option.splits if_splits)
    with False show ?thesis by blast
  qed
  then obtain body close where b: "lazy_body close s' = Some (body, rest)"
    and g: "g = c # body @ [close]"
    and cc: "c = CHR ''{'' \<and> close = CHR ''}'' \<or> c \<noteq> CHR ''{'' \<and> c = CHR ''['' \<and> close = CHR '']''"
    by blast
  from lazy_body_alone [OF b] obtain m' where m': "s' = m' @ rest" "lazy_body close m' = Some (body, [])"
    by blast
  define m where "m = ''```'' @ tag @ ws1 @ c # m'"
  have "after_tag = ws1 @ c # m' @ rest" by (subst ws1(1)) (simp add: c m'(1))
  with s have sm: "s = m @ rest" by (simp add: m_def)
  have t3: "take 3 m = ''```''" by (simp add: m_def)
  have d3: "drop 3 m = tag @ ws1 @ c # m'" by (simp add: m_def)
  have l: "lstrip (ws1 @ c # m') = c # m'"
    using ws1(2) cns by (simp add: lstrip_all_space) (simp add: lstrip_def)
  have tagged: "(if take 4 (drop 3 m) = ''json'' then drop 4 (drop 3 m) else drop 3 m) = ws1 @ c # m'"
  proof (cases "take 4 (drop 3 s) = ''json''")
    case True
    then have "tag = ''json''" by (simp add: tag_def)
    then show ?thesis by (simp add: d3)
  next
    case False
    then have tg: "tag = []" by (simp add: tag_def)
    have "take 4 (drop 3 m) \<noteq> ''json''"
    proof
      assume j: "take 4 (drop 3 m) = ''json''"
      have "length (take 4 (drop 3 m)) = 4" by (simp only: j) simp
      then have "4 \<le> length (drop 3 m)" by simp
      moreover have "drop 3 s = drop 3 m @ rest" using sm t3 by (simp add: m_def)
      ultimately have "take 4 (drop 3 s) = take 4 (drop 3 m)" by simp
      with j False show False by simp
    qed
    then show ?thesis by (simp add: d3 tg)
  qed
  have "match_markdown m =
      (if c = CHR ''{'' then
         (case lazy_body (CHR ''}'') m' of
            None \<Rightarrow> None
          | Some (body, rest) \<Rightarrow> Some (c # body @ ''}'', rest))
       else if c = CHR ''['' then
         (case lazy_body (CHR '']'') m' of
            None \<Rightarrow> None
          | Some (body, rest) \<Rightarrow> Some (c # body @ '']'', rest))
       else None)"
    unfolding match_markdown_def Let_def
    by (simp only: t3 tagged l HOL.simp_thms if_True list.case)
  then have "match_markdown m = Some (g, [])"
    using cc m'(2) g by auto
  with sm t3 show ?thesis by blast
qed

lemma spans_ok_mono: "spans_ok text lo spans \<Longrightarrow> lo' \<le> lo \<Longrightarrow> spans_ok text lo' spans"
  by (cases spans) auto

lemma finditer_from_spans:
  "text = pre @ s \<Longrightarrow> length pre = pos \<Longrightarrow>
     spans_ok text pos (finditer_from pos s)
     \<and> (\<forall>(a, b, g)\<in>set (finditer_from pos s). match_markdown (slice a b text) = Some (g, []))"
proof (induction pos s arbitrary: pre rule: finditer_from.induct)
  case (1 pos s)
  show ?case
  proof (cases "match_markdown s")
    case None
    show ?thesis
    proof (cases s)
      case Nil
      with None "1.prems" show ?thesis by (simp add: finditer_from.simps [of pos "[]"])
    next
      case (Cons c s')
      have "text = (pre @ [c]) @ s'" "length (pre @ [c]) = Suc pos"
        using "1.prems" Cons by simp_all
      from "1.IH"(1) [OF None Cons this] have
        ih: "spans_ok text (Suc pos) (finditer_from (Suc pos) s')"
        "\<forall>(a, b, g)\<in>set (finditer_from (Suc pos) s'). match_markdown (slice a b text) = Some (g, [])"
        by simp_all
      from ih(1) have "spans_ok text pos (finditer_from (Suc pos) s')"
        by (rule spans_ok_mono) simp
      with ih(2) None Cons show ?thesis by (simp add: finditer_from.simps [of pos "c # s'"])
    qed
  next
    case (Some p)
    obtain g rest where p: "p = (g, rest)" by (cases p)
    from match_markdown_alone [OF Some [unfolded p]] obtain m where
      m: "s = m @ rest" "match_markdown m = Some (g, [])" "take 3 m = ''```''"
      by blast
    then have len: "length s - length rest = length m" by simp
    from m(3) have mne: "m \<noteq> []" by auto
    from m(3) have hd: "hd m = CHR 0x60" by (cases m) auto
    have tx: "text = (pre @ m) @ rest" and pl: "length (pre @ m) = pos + length m"
      using "1.prems" m(1) by simp_all
    have "text = (pre @ m) @ rest" "length (pre @ m) = pos + (length s - length rest)"
      using tx pl len by simp_all
    from "1.IH"(2) [OF Some p [symmetric] this] have
      ih: "spans_ok text (pos + length m) (finditer_from (pos + length m) rest)"
      "\<forall>(a, b, g)\<in>set (finditer_from (pos + length m) rest).
         match_markdown (slice a b text) = Some (g, [])"
      by (simp_all add: len)
    have sl: "slice pos (pos + length m) text = m"
      using "1.prems" m(1) by (simp add: slice_def)
    have "text ! pos = hd m"
      using "1.prems" m(1) mne by (simp add: nth_append hd_conv_nth)
    with hd have vis: "\<not> is_space (text ! pos)" by (simp add: is_space_def)
    have inside: "pos + length m \<le> length text" using "1.prems" m(1) by simp
    have unfold: "finditer_from pos s
        = (pos, pos + length m, g) # finditer_from (pos + length m) rest"
      using Some p by (simp add: finditer_from.simps [of pos s] len)
    show ?thesis
      unfolding unfold using ih sl vis inside mne m(2) by simp
  qed
qed

lemma finditer_spans:
  "spans_ok text 0 (finditer text)
   \<and> (\<forall>(a, b, g)\<in>set (finditer text). match_markdown (slice a b text) = Some (g, []))"
  unfolding finditer_def using finditer_from_spans [of _ "[]" _ 0] by simp

subsection \<open>Coverage by the chunks of a scan\<close>

lemma covers_gap_span:
  assumes "lo \<le> a" "a < b" "b \<le> length text" "\<not> is_space (text ! a)"
    and "covers ps (drop b text)"
  shows "covers ((if strip (slice lo a text) \<noteq> [] then [strip (slice lo a text)] else [])
                  @ slice a b text # ps) (drop lo text)"
proof -
  let ?gap = "slice lo a text"
  let ?span = "slice a b text"
  have split: "drop lo text = ?gap @ ?span @ drop b text"
    using assms(1-3) by (intro drop_span_split) simp_all
  from slice_head [OF assms(2,3)] assms(4) have span: "?span \<noteq> []" "\<not> is_space (hd ?span)"
    by simp_all
  show ?thesis
  proof (cases "strip ?gap = []")
    case True
    then have sp: "\<forall>c\<in>set ?gap. is_space c" by (rule strip_empty)
    have "covers (?span # ps) (?gap @ ?span @ drop b text) = covers ps (drop b text)"
      using sp span by (rule covers_piece)
    with assms(5) split True show ?thesis by simp
  next
    case False
    obtain l r where g: "?gap = l @ strip ?gap @ r" and l: "\<forall>c\<in>set l. is_space c"
      and r: "\<forall>c\<in>set r. is_space c"
      using strip_split by blast
    have "covers (strip ?gap # ?span # ps) (l @ strip ?gap @ (r @ ?span @ drop b text))
        = covers (?span # ps) (r @ ?span @ drop b text)"
      using l False strip_head [OF False] by (rule covers_piece)
    also have "\<dots> = covers ps (drop b text)"
      using r span by (rule covers_piece)
    finally have "covers (strip ?gap # ?span # ps) (l @ strip ?gap @ (r @ ?span @ drop b text))"
      using assms(5) by simp
    moreover have "drop lo text = l @ strip ?gap @ (r @ ?span @ drop b text)"
      by (subst split, subst g) simp
    ultimately show ?thesis using False by simp
  qed
qed

lemma covers_tail: "covers (if strip s \<noteq> [] then [strip s] else []) s"
proof (cases "strip s = []")
  case True
  then have "\<forall>c\<in>set s. is_space c" by (rule strip_empty)
  then have "covers [] s" by (rule covers_Nil_space)
  with True show ?thesis by simp
next
  case False
  have "covers [strip s] s" using covers_strip_single by (rule covers_strip)
  with False show ?thesis by simp
qed

lemma markdown_parts_covers:
  assumes "markdown_parts loads text ms last_end = Inr parts"
    and "spans_ok text last_end ms"
    and "\<forall>(a, b, g)\<in>set ms. match_markdown (slice a b text) = Some (g, [])"
  shows "\<exists>pieces. list_all2 (reads_as loads) (filter nonempty_chunk parts) pieces
           \<and> covers pieces (drop last_end text)"
  using assms
proof (induction ms arbitrary: last_end parts)
  case Nil
  let ?g = "drop last_end text"
  let ?ps = "if strip ?g \<noteq> [] then [strip ?g] else []"
  have c: "covers ?ps ?g" by (rule covers_tail)
  have "strip ?g = []" if "\<not> last_end < length text"
    using that by (simp add: strip_def lstrip_def)
  with Nil.prems(1) have "filter nonempty_chunk parts = map Text ?ps"
    by (auto split: if_splits)
  then have "list_all2 (reads_as loads) (filter nonempty_chunk parts) ?ps"
    by (simp add: list_all2_conv_all_nth)
  with c show ?case by blast
next
  case (Cons mt ms)
  obtain a b g where mt: "mt = (a, b, g)" by (cases mt)
  from Cons.prems(2) mt have ord: "last_end \<le> a" "a < b" "b \<le> length text"
    and vis: "\<not> is_space (text ! a)" and rest_ok: "spans_ok text b ms"
    by simp_all
  from Cons.prems(3) mt have fenced: "match_markdown (slice a b text) = Some (g, [])"
    and rest_f: "\<forall>(a, b, g)\<in>set ms. match_markdown (slice a b text) = Some (g, [])"
    by simp_all
  let ?gap = "slice last_end a text"
  let ?span = "slice a b text"
  let ?before = "if a > last_end then [Text (strip ?gap)] else []"
  from Cons.prems(1) mt obtain rest x where rest: "markdown_parts loads text ms b = Inr rest"
    and parts: "parts = ?before @ x # rest"
    and x: "(\<exists>v. x = Json v \<and> loads g = Inr v) \<or> x = Text ?span"
    by (auto simp: Let_def split: sum.splits exn.splits)
  from Cons.IH [OF rest rest_ok rest_f] obtain ps where
    ps: "list_all2 (reads_as loads) (filter nonempty_chunk rest) ps" "covers ps (drop b text)"
    by blast
  let ?gp = "if strip ?gap \<noteq> [] then [strip ?gap] else []"
  have cov: "covers (?gp @ ?span # ps) (drop last_end text)"
    using ord vis ps(2) by (rule covers_gap_span)
  from slice_head [OF ord(2,3)] have sne: "?span \<noteq> []" by simp
  have "strip ?gap = []" if "\<not> a > last_end"
    using that ord(1) by (simp add: slice_def strip_def lstrip_def)
  then have fb: "filter nonempty_chunk ?before = map Text ?gp" by auto
  from x sne have xne: "nonempty_chunk x" by auto
  from x fenced have xr: "reads_as loads x ?span" by auto
  have "filter nonempty_chunk parts = map Text ?gp @ x # filter nonempty_chunk rest"
    unfolding parts using fb xne by simp
  moreover have "list_all2 (reads_as loads) (map Text ?gp) ?gp"
    by (simp add: list_all2_conv_all_nth)
  ultimately have "list_all2 (reads_as loads) (filter nonempty_chunk parts) (?gp @ ?span # ps)"
    using xr ps(1) by (simp add: list_all2_appendI)
  with cov show ?case by blast
qed

lemma object_parts_nonempty: "object_parts text objs last_end \<noteq> [] \<or> objs = []"
  by (cases objs) auto

text \<open>Every result of the extractor covers the input.\<close>

lemma extract_chunks_covers:
  assumes "extract_chunks loads raw = Inr chunks"
  shows "\<exists>pieces. list_all2 (reads_as loads) chunks pieces \<and> covers pieces raw"
proof -
  let ?text = "strip raw"
  have single: "covers [?text] raw" using covers_strip_single by (rule covers_strip)
  show ?thesis
  proof (cases "loads ?text")
    case (Inr v)
    with assms have "chunks = [Json v]" by (simp add: extract_chunks_def)
    with Inr single have "list_all2 (reads_as loads) chunks [?text] \<and> covers [?text] raw" by simp
    then show ?thesis by blast
  next
    case (Inl e)
    with assms have e: "loads ?text = Inl JSONDecodeError"
      by (cases e) (simp_all add: extract_chunks_def)
    show ?thesis
    proof (cases "finditer ?text = []")
      case False
      with assms e obtain parts where
        parts: "markdown_parts loads ?text (finditer ?text) 0 = Inr parts"
        and chunks: "chunks = filter nonempty_chunk parts"
        by (auto simp: extract_chunks_def Let_def split: sum.splits)
      from finditer_spans [of ?text] have "spans_ok ?text 0 (finditer ?text)"
        "\<forall>(a, b, g)\<in>set (finditer ?text). match_markdown (slice a b ?text) = Some (g, [])"
        by simp_all
      from markdown_parts_covers [OF parts this] obtain pieces where
        "list_all2 (reads_as loads) (filter nonempty_chunk parts) pieces" "covers pieces ?text"
        by auto
      then have "list_all2 (reads_as loads) chunks pieces \<and> covers pieces raw"
        using chunks covers_strip by blast
      then show ?thesis by blast
    next
      case True
      with assms e obtain objs where
        objs: "brace_scan loads ?text 0 ?text 0 (- 1) = Inr objs"
        and c: "(if objs \<noteq> [] then Inr (object_parts ?text objs 0) else Inr [Text ?text])
            = (Inr chunks :: exn + 'a chunk list)"
        by (auto simp: extract_chunks_def Let_def split: sum.splits)
      show ?thesis
      proof (cases "objs = []")
        case True
        with c have "chunks = [Text ?text]" by simp
        with single have "list_all2 (reads_as loads) chunks [?text] \<and> covers [?text] raw" by simp
        then show ?thesis by blast
      next
        case False
        with c have chunks: "chunks = object_parts ?text objs 0" by simp
        have "spans_ok ?text 0 objs"
          using objs by (rule brace_scan_spans [where pre = "[]"]) simp_all
        moreover have "\<forall>(a, b, v)\<in>set objs. loads (slice a b ?text) = Inr v"
          using brace_scan_recorded [OF objs] by auto
        ultimately obtain pieces where
          "list_all2 (reads_as loads) (object_parts ?text objs 0) pieces" "covers pieces ?text"
          using object_parts_covers [of ?text 0 objs loads] by auto
        then have "list_all2 (reads_as loads) chunks pieces \<and> covers pieces raw"
          using chunks covers_strip by blast
        then show ?thesis by blast
      qed
    qed
  qed
qed

subsection \<open>Failed brace spans stay in the text\<close>

lemma brace_scan_accepting: "\<exists>spans. brace_scan Inr text i s brace_count start_idx = Inr spans"
proof (cases "brace_scan Inr text i s brace_count start_idx")
  case (Inl e)
  from brace_scan_exn [OF this] show ?thesis by simp
next
  case (Inr spans)
  then show ?thesis by blast
qed

text \<open>What the scan records is what the decoder parses of the candidates.\<close>

lemma brace_scan_parsed_of:
  "brace_scan loads text i s brace_count start_idx = Inr objs \<Longrightarrow>
     \<exists>spans. brace_scan Inr text i s brace_count start_idx = Inr spans
        \<and> objs = parsed_of loads spans"
proof (induction s arbitrary: i brace_count start_idx objs)
  case Nil
  then show ?case by simp
next
  case (Cons c s)
  show ?case
  proof (cases "c = CHR ''}'' \<and> brace_count - 1 = 0 \<and> start_idx \<noteq> - 1")
    case False
    with Cons.prems obtain i' bc' st' where
      run: "brace_scan loads text i' s bc' st' = Inr objs"
      and same: "brace_scan Inr text i (c # s) brace_count start_idx = brace_scan Inr text i' s bc' st'"
      by (auto split: if_splits)
    from Cons.IH [OF run] same show ?thesis by simp
  next
    case True
    let ?cand = "slice (nat start_idx) (i + 1) text"
    obtain rest where rest: "brace_scan Inr text (i + 1) s 0 (- 1) = Inr rest"
      using brace_scan_accepting by blast
    with True have acc: "brace_scan Inr text i (c # s) brace_count start_idx
        = Inr ((nat start_idx, i + 1, ?cand) # rest)"
      by simp
    show ?thesis
    proof (cases "loads ?cand")
      case (Inl x)
      with True Cons.prems have run: "brace_scan loads text (i + 1) s 0 (- 1) = Inr objs"
        by (cases x) simp_all
      from Cons.IH [OF run] rest have "objs = parsed_of loads rest" by simp
      with Inl have "objs = parsed_of loads ((nat start_idx, i + 1, ?cand) # rest)" by simp
      with acc show ?thesis by blast
    next
      case (Inr v)
      with True Cons.prems obtain objs' where
        run: "brace_scan loads text (i + 1) s 0 (- 1) = Inr objs'"
        and objs: "objs = (nat start_idx, i + 1, v) # objs'"
        by (auto split: sum.splits)
      from Cons.IH [OF run] rest have "objs' = parsed_of loads rest" by simp
      with Inr objs have "objs = parsed_of loads ((nat start_idx, i + 1, ?cand) # rest)" by simp
      with acc show ?thesis by blast
    qed
  qed
qed

text \<open>A recorded span ends at a closing brace.\<close>

lemma brace_scan_ends:
  assumes "brace_scan loads text i s brace_count start_idx = Inr objs"
    and "text = pre @ s" "length pre = i"
  shows "\<forall>(a, b, v)\<in>set objs. 0 < b \<and> text ! (b - 1) = CHR ''}''"
  using assms
proof (induction s arbitrary: i brace_count start_idx objs pre)
  case Nil
  then show ?case by simp
next
  case (Cons c s)
  have tx: "text = (pre @ [c]) @ s" and len: "length (pre @ [c]) = i + 1"
    using Cons.prems(2,3) by simp_all
  have ci: "text ! i = c" using Cons.prems(2,3) by (simp add: nth_append)
  show ?case
  proof (cases "c = CHR ''}'' \<and> brace_count - 1 = 0 \<and> start_idx \<noteq> - 1")
    case False
    with Cons.prems(1) obtain bc' st' where
      "brace_scan loads text (i + 1) s bc' st' = Inr objs"
      by (auto split: if_splits)
    from Cons.IH [OF this tx len] show ?thesis .
  next
    case True
    show ?thesis
    proof (cases "loads (slice (nat start_idx) (i + 1) text)")
      case (Inl x)
      with True Cons.prems(1) have "brace_scan loads text (i + 1) s 0 (- 1) = Inr objs"
        by (cases x) simp_all
      from Cons.IH [OF this tx len] show ?thesis .
    next
      case (Inr v)
      with True Cons.prems(1) obtain objs' where
        run: "brace_scan loads text (i + 1) s 0 (- 1) = Inr objs'"
        and objs: "objs = (nat start_idx, i + 1, v) # objs'"
        by (auto split: sum.splits)
      from Cons.IH [OF run tx len] True ci objs show ?thesis by simp
    qed
  qed
qed

lemma spans_ok_parsed_of: "spans_ok text lo spans \<Longrightarrow> spans_ok text lo (parsed_of loads spans)"
proof (induction spans arbitrary: lo)
  case Nil
  then show ?case by simp
next
  case (Cons sp spans)
  obtain a b c where sp: "sp = (a, b, c)" by (cases sp)
  from Cons.prems sp have ord: "lo \<le> a" "a < b" "b \<le> length text" "\<not> is_space (text ! a)"
    and rest: "spans_ok text b spans"
    by simp_all
  from Cons.IH [OF rest] have ih: "spans_ok text b (parsed_of loads spans)" .
  show ?case
  proof (cases "loads c")
    case (Inl e)
    from ih have "spans_ok text lo (parsed_of loads spans)"
      by (rule spans_ok_mono) (use ord in simp)
    with Inl sp show ?thesis by simp
  next
    case (Inr v)
    with sp ord ih show ?thesis by simp
  qed
qed

subsection \<open>Trimming around a visible span\<close>

lemma lstrip_before:
  assumes "s \<noteq> []" "\<not> is_space (hd s)"
  shows "lstrip (x @ s @ y) = lstrip x @ s @ y"
proof (cases "lstrip x = []")
  case True
  then have "\<forall>c\<in>set x. is_space c" by (simp add: lstrip_empty_iff)
  then have "lstrip (x @ s @ y) = lstrip (s @ y)" by (rule lstrip_all_space)
  also have "\<dots> = s @ y" using assms by (intro lstrip_id) simp_all
  finally show ?thesis using True by simp
next
  case False
  then show ?thesis by (rule lstrip_append)
qed

lemma strip_around:
  assumes "s \<noteq> []" "\<not> is_space (hd s)" "\<not> is_space (last s)"
  shows "strip (x @ s @ y) = lstrip x @ s @ rev (lstrip (rev y))"
proof -
  have l: "lstrip (x @ s @ y) = lstrip x @ s @ y" using assms(1,2) by (rule lstrip_before)
  have "rev s \<noteq> []" "\<not> is_space (hd (rev s))" using assms(1,3) by (simp_all add: hd_rev)
  then have "lstrip (rev y @ rev s @ rev (lstrip x)) = lstrip (rev y) @ rev s @ rev (lstrip x)"
    by (rule lstrip_before)
  then show ?thesis by (simp add: strip_def l)
qed

lemma slice_last:
  assumes "a < b" "b \<le> length text"
  shows "last (slice a b text) = text ! (b - 1)"
proof -
  have len: "length (slice a b text) = b - a" using assms by (simp add: slice_def)
  then have "slice a b text \<noteq> []" using assms(1) by auto
  then have "last (slice a b text) = slice a b text ! (b - a - 1)"
    by (simp add: last_conv_nth len)
  also have "\<dots> = text ! (a + (b - a - 1))" using assms by (simp add: slice_def)
  finally show ?thesis using assms(1) by simp
qed

lemma slice_split3:
  assumes "lo \<le> a" "a \<le> b" "b \<le> hi"
  shows "slice lo hi text = slice lo a text @ slice a b text @ slice b hi text"
proof -
  have e: "hi - lo = (a - lo) + ((b - a) + (hi - b))" using assms by simp
  have d1: "drop (a - lo) (drop lo text) = drop a text" using assms(1) by simp
  have d2: "drop (b - a) (drop a text) = drop b text" using assms(2) by simp
  have "take (hi - lo) (drop lo text)
      = take (a - lo) (drop lo text) @ take ((b - a) + (hi - b)) (drop (a - lo) (drop lo text))"
    unfolding e by (rule take_add)
  also have "take ((b - a) + (hi - b)) (drop (a - lo) (drop lo text))
      = take (b - a) (drop a text) @ take (hi - b) (drop (b - a) (drop a text))"
    unfolding d1 by (rule take_add)
  finally show ?thesis unfolding d2 slice_def .
qed

subsection \<open>A span outside the recorded ones is in a text chunk\<close>

lemma spans_ok_member:
  "spans_ok text lo spans \<Longrightarrow> (a, b, v) \<in> set spans \<Longrightarrow>
     lo \<le> a \<and> a < b \<and> b \<le> length text \<and> \<not> is_space (text ! a)"
proof (induction spans arbitrary: lo)
  case Nil
  then show ?case by simp
next
  case (Cons sp spans)
  obtain a0 b0 v0 where sp: "sp = (a0, b0, v0)" by (cases sp)
  from Cons.prems(1) sp have ord: "lo \<le> a0" "a0 < b0" "b0 \<le> length text" "\<not> is_space (text ! a0)"
    and rest: "spans_ok text b0 spans"
    by simp_all
  show ?case
  proof (cases "(a, b, v) = (a0, b0, v0)")
    case True
    with ord show ?thesis by simp
  next
    case False
    with Cons.prems(2) sp have "(a, b, v) \<in> set spans" by auto
    from Cons.IH [OF rest this] ord show ?thesis by simp
  qed
qed

text \<open>A candidate that fails to parse lies outside every recorded span.\<close>

lemma failed_candidate_apart:
  assumes "spans_ok text lo cands" "(a, b, c) \<in> set cands" "loads c = Inl e"
    and "(a', b', v) \<in> set (parsed_of loads cands)"
  shows "b \<le> a' \<or> b' \<le> a"
  using assms
proof (induction cands arbitrary: lo)
  case Nil
  then show ?case by simp
next
  case (Cons sp cands)
  obtain a0 b0 c0 where sp: "sp = (a0, b0, c0)" by (cases sp)
  from Cons.prems(1) sp have rest: "spans_ok text b0 cands" by simp
  show ?case
  proof (cases "(a, b, c) = (a0, b0, c0)")
    case True
    with Cons.prems(3) have "loads c0 = Inl e" by simp
    with Cons.prems(4) sp have in_rest: "(a', b', v) \<in> set (parsed_of loads cands)" by simp
    have "spans_ok text b0 (parsed_of loads cands)" using rest by (rule spans_ok_parsed_of)
    from spans_ok_member [OF this in_rest] have "b0 \<le> a'" by simp
    with True show ?thesis by simp
  next
    case False
    with Cons.prems(2) sp have mem: "(a, b, c) \<in> set cands" by auto
    from spans_ok_member [OF rest mem] have after: "b0 \<le> a" by simp
    show ?thesis
    proof (cases "(a', b', v) \<in> set (parsed_of loads cands)")
      case True
      from Cons.IH [OF rest mem Cons.prems(3) True] show ?thesis .
    next
      case False
      have "b' = b0"
      proof (cases "loads c0")
        case (Inl x)
        with Cons.prems(4) sp False show ?thesis by simp
      next
        case (Inr w)
        with Cons.prems(4) sp False show ?thesis by simp
      qed
      with after show ?thesis by simp
    qed
  qed
qed

text \<open>
  A span of visible ends that lies outside the recorded spans is part of one of the
  \<open>Text\<close> chunks between them.
\<close>

lemma object_parts_surface:
  assumes "spans_ok text lo objs"
    and "lo \<le> a" "a < b" "b \<le> length text"
    and "\<not> is_space (text ! a)" "\<not> is_space (text ! (b - 1))"
    and "\<forall>(a', b', v)\<in>set objs. b \<le> a' \<or> b' \<le> a"
  shows "\<exists>t x y. Text t \<in> set (object_parts text objs lo) \<and> t = x @ slice a b text @ y"
  using assms(1,2,7)
proof (induction objs arbitrary: lo)
  case Nil
  have vis: "slice a b text \<noteq> []" "\<not> is_space (hd (slice a b text))"
    "\<not> is_space (last (slice a b text))"
    using slice_head [OF assms(3,4)] slice_last [OF assms(3,4)] assms(5,6) by simp_all
  have "drop lo text = slice lo a text @ slice a b text @ drop b text"
    using Nil.prems(2) assms(3,4) by (intro drop_span_split) simp_all
  then have s: "strip (drop lo text)
      = lstrip (slice lo a text) @ slice a b text @ rev (lstrip (rev (drop b text)))"
    using strip_around [OF vis] by simp
  with vis(1) have ne: "strip (drop lo text) \<noteq> []" by simp
  from Nil.prems(2) assms(3,4) have "lo < length text" by simp
  with ne have "Text (strip (drop lo text)) \<in> set (object_parts text [] lo)" by simp
  with s show ?case by metis
next
  case (Cons obj objs)
  obtain a' b' v where obj: "obj = (a', b', v)" by (cases obj)
  from Cons.prems(1) obj have ord: "lo \<le> a'" "a' < b'" "b' \<le> length text"
    and rest: "spans_ok text b' objs"
    by simp_all
  from Cons.prems(3) obj have apart: "b \<le> a' \<or> b' \<le> a"
    and others: "\<forall>(a', b', v)\<in>set objs. b \<le> a' \<or> b' \<le> a"
    by simp_all
  from apart show ?case
  proof
    assume before: "b \<le> a'"
    have vis: "slice a b text \<noteq> []" "\<not> is_space (hd (slice a b text))"
      "\<not> is_space (last (slice a b text))"
      using slice_head [OF assms(3,4)] slice_last [OF assms(3,4)] assms(5,6) by simp_all
    have "slice lo a' text = slice lo a text @ slice a b text @ slice b a' text"
      using Cons.prems(2) assms(3) before by (intro slice_split3) simp_all
    then have s: "strip (slice lo a' text)
        = lstrip (slice lo a text) @ slice a b text @ rev (lstrip (rev (slice b a' text)))"
      using strip_around [OF vis] by simp
    with vis(1) have ne: "strip (slice lo a' text) \<noteq> []" by simp
    from Cons.prems(2) assms(3) before have "lo < a'" by simp
    with ne obj have "Text (strip (slice lo a' text)) \<in> set (object_parts text (obj # objs) lo)"
      by simp
    with s show ?thesis by metis
  next
    assume after: "b' \<le> a"
    from Cons.IH [OF rest after others] obtain t x y where
      "Text t \<in> set (object_parts text objs b')" "t = x @ slice a b text @ y"
      by blast
    with obj show ?thesis by auto
  qed
qed

text \<open>
  So the characters of a brace span that fails to parse are in a \<open>Text\<close> chunk of the brace
  scan.
\<close>

lemma brace_scan_failed_surface:
  assumes scan: "brace_scan loads text 0 text 0 (- 1) = Inr objs"
    and cand: "(a, b, c) \<in> set (brace_candidates text)"
    and fails: "loads c = Inl e"
  shows "\<exists>t x y. Text t \<in> set (if objs \<noteq> [] then object_parts text objs 0 else [Text text])
           \<and> t = x @ c @ y"
proof -
  from brace_scan_parsed_of [OF scan] obtain spans where
    spans: "brace_scan Inr text 0 text 0 (- 1) = Inr spans"
    and objs: "objs = parsed_of loads spans"
    by blast
  from spans cand have mem: "(a, b, c) \<in> set spans" by (simp add: brace_candidates_def)
  have ok: "spans_ok text 0 spans"
    by (rule brace_scan_spans [OF spans, of "[]"]) simp_all
  from spans_ok_member [OF ok mem] have ord: "a < b" "b \<le> length text" "\<not> is_space (text ! a)"
    by simp_all
  from brace_scan_recorded [OF spans mem] have c: "c = slice a b text" by simp
  from brace_scan_ends [OF spans, of "[]"] mem have "text ! (b - 1) = CHR ''}''" by auto
  then have last: "\<not> is_space (text ! (b - 1))" by (simp add: is_space_def)
  show ?thesis
  proof (cases "objs = []")
    case True
    have "text = take a text @ slice a b text @ drop b text"
      using drop_span_split [of 0 a b] ord by (simp add: slice_def)
    with True c show ?thesis by auto
  next
    case False
    have apart: "\<forall>(a', b', v)\<in>set objs. b \<le> a' \<or> b' \<le> a"
      using failed_candidate_apart [where loads = loads, OF ok mem fails] objs by auto
    from ok have "spans_ok text 0 objs" unfolding objs by (rule spans_ok_parsed_of)
    from object_parts_surface [OF this _ ord(1,2,3) last apart] False c show ?thesis by simp
  qed
qed

lemma brace_candidates_slice:
  assumes "(a, b, c) \<in> set (brace_candidates text)"
  shows "c = slice a b text"
proof -
  obtain spans where spans: "brace_scan Inr text 0 text 0 (- 1) = Inr spans"
    using brace_scan_accepting by blast
  with assms have "(a, b, c) \<in> set spans" by (simp add: brace_candidates_def)
  from brace_scan_recorded [OF spans this] show ?thesis by simp
qed

section \<open>Claims about the extractor\<close>



text \<open>
  C5 (as amended). When the trimmed input does not parse as JSON, no fenced block
  matches and the brace scan records no parsed candidate, the result is a single \<open>Text\<close>
  chunk whose content is the input with leading and trailing whitespace removed; it is
  the input itself when the input neither begins nor ends with whitespace.
\<close>

theorem extract_no_json_fallback:
  assumes "loads (strip raw) = Inl JSONDecodeError"
    and "finditer (strip raw) = []"
    and "brace_scan loads (strip raw) 0 (strip raw) 0 (- 1) = Inr []"
  shows "extract_chunks loads raw = Inr [Text (strip raw)]
       \<and> parse_mixed_json_and_text loads dumps raw = Inr (strip raw)
       \<and> (raw \<noteq> [] \<and> \<not> is_space (hd raw) \<and> \<not> is_space (last raw) \<longrightarrow> strip raw = raw)"
proof -
  have "strip raw = raw" if "raw \<noteq> []" "\<not> is_space (hd raw)" "\<not> is_space (last raw)"
  proof -
    from that(1,2) have l: "lstrip raw = raw"
      by (cases raw) (simp_all add: lstrip_def)
    from that(1,3) have "lstrip (rev raw) = rev raw"
      by (cases "rev raw") (simp_all add: lstrip_def hd_rev)
    with l show ?thesis by (simp add: strip_def)
  qed
  then show ?thesis
    using assms by (simp add: extract_chunks_def parse_mixed_json_and_text_def)
qed

text \<open>The example of the specification, \<^verbatim>\<open>extract("no json here")\<close>.\<close>

theorem extract_no_json_fallback_witness:
  "json_loads (strip ''no json here'') = Inl JSONDecodeError
   \<and> finditer (strip ''no json here'') = []
   \<and> brace_scan json_loads (strip ''no json here'') 0 (strip ''no json here'') 0 (- 1) = Inr []
   \<and> extract_chunks json_loads ''no json here'' = Inr [Text ''no json here'']"
proof -
  have s: "strip ''no json here'' = ''no json here''" by code_simp
  have a: "json_loads (strip ''no json here'') = Inl JSONDecodeError" by code_simp
  have b: "finditer (strip ''no json here'') = []" by code_simp
  have c: "brace_scan json_loads (strip ''no json here'') 0 (strip ''no json here'') 0 (- 1) = Inr []"
    by code_simp
  from extract_no_json_fallback [of json_loads "''no json here''" json_dumps, OF a b c] a b c s
  show ?thesis by simp
qed

text \<open>
  C5 as stated fails on an input with surrounding whitespace: the chunk holds the trimmed
  text, not the original string.
\<close>

theorem extract_no_json_fallback_counterexample:
  "json_loads (strip '' no json here '') = Inl JSONDecodeError
   \<and> finditer (strip '' no json here '') = []
   \<and> brace_scan json_loads (strip '' no json here '') 0 (strip '' no json here '') 0 (- 1) = Inr []
   \<and> extract_chunks json_loads '' no json here '' = Inr [Text ''no json here'']
   \<and> extract_chunks json_loads '' no json here '' \<noteq> Inr [Text '' no json here '']
   \<and> parse_mixed_json_and_text json_loads json_dumps '' no json here '' = Inr ''no json here''"
  by code_simp




text \<open>
  C4 (as amended). Let the trimmed input not parse as JSON. In the fenced-block scan, a
  match whose content fails to parse is a \<open>Text\<close> chunk of the result, verbatim from the
  opening to the closing triple backquote. In the brace scan (no fenced match), a brace
  span that fails to parse is not recorded: every \<open>Json\<close> chunk is the value of a span
  that parsed. The characters of the failed span are not removed: the span, as it stands
  in the text, is part of one of the \<open>Text\<close> chunks of the result.
\<close>

theorem extract_failed_candidates:
  assumes "loads (strip raw) = Inl JSONDecodeError" "extract_chunks loads raw = Inr chunks"
  shows "(\<forall>start end' g. (start, end', g) \<in> set (finditer (strip raw)) \<and> loads g = Inl JSONDecodeError
            \<longrightarrow> Text (slice start end' (strip raw)) \<in> set chunks
              \<and> take 3 (slice start end' (strip raw)) = ''```''
              \<and> take 3 (rev (slice start end' (strip raw))) = ''```'')
       \<and> (finditer (strip raw) = []
            \<longrightarrow> (\<forall>v. Json v \<in> set chunks \<longrightarrow> (\<exists>a b. loads (slice a b (strip raw)) = Inr v)))
       \<and> (finditer (strip raw) = []
            \<longrightarrow> (\<forall>a b c. (a, b, c) \<in> set (brace_candidates (strip raw)) \<and> loads c = Inl JSONDecodeError
                  \<longrightarrow> c = slice a b (strip raw)
                    \<and> (\<exists>t x y. Text t \<in> set chunks \<and> t = x @ c @ y)))"
proof (intro conjI allI impI)
  fix start end' g
  assume h: "(start, end', g) \<in> set (finditer (strip raw)) \<and> loads g = Inl JSONDecodeError"
  then have ne: "finditer (strip raw) \<noteq> []" by auto
  from finditer_fenced [of start end' g "strip raw"] h
  have f: "take 3 (slice start end' (strip raw)) = ''```''"
    "take 3 (rev (slice start end' (strip raw))) = ''```''"
    by simp_all
  from assms ne obtain parts where
    parts: "markdown_parts loads (strip raw) (finditer (strip raw)) 0 = Inr parts"
    and chunks: "chunks = filter nonempty_chunk parts"
    by (auto simp: extract_chunks_def Let_def split: sum.splits)
  from markdown_parts_failed_kept [OF parts] h
  have "Text (slice start end' (strip raw)) \<in> set parts" by blast
  moreover from f(1) have "nonempty_chunk (Text (slice start end' (strip raw)))" by auto
  ultimately show "Text (slice start end' (strip raw)) \<in> set chunks"
    by (simp add: chunks)
  from f show "take 3 (slice start end' (strip raw)) = ''```''"
    "take 3 (rev (slice start end' (strip raw))) = ''```''"
    by simp_all
next
  fix v
  assume none: "finditer (strip raw) = []" and v: "Json v \<in> set chunks"
  from assms none obtain objs where
    objs: "brace_scan loads (strip raw) 0 (strip raw) 0 (- 1) = Inr objs"
    and c: "(if objs \<noteq> [] then Inr (object_parts (strip raw) objs 0) else Inr [Text (strip raw)])
        = (Inr chunks :: exn + 'a chunk list)"
    by (auto simp: extract_chunks_def Let_def split: sum.splits)
  from v c have "Json v \<in> set (object_parts (strip raw) objs 0)"
    by (auto split: if_splits)
  from object_parts_json [OF this] obtain a b where "(a, b, v) \<in> set objs" by blast
  from brace_scan_recorded [OF objs this] show "\<exists>a b. loads (slice a b (strip raw)) = Inr v"
    by blast
next
  fix a b c
  assume none: "finditer (strip raw) = []"
    and h: "(a, b, c) \<in> set (brace_candidates (strip raw)) \<and> loads c = Inl JSONDecodeError"
  from h have cand: "(a, b, c) \<in> set (brace_candidates (strip raw))"
    and fails: "loads c = Inl JSONDecodeError"
    by simp_all
  from cand show "c = slice a b (strip raw)" by (rule brace_candidates_slice)
  from assms none obtain objs where
    objs: "brace_scan loads (strip raw) 0 (strip raw) 0 (- 1) = Inr objs"
    and c: "(if objs \<noteq> [] then Inr (object_parts (strip raw) objs 0) else Inr [Text (strip raw)])
        = (Inr chunks :: exn + 'a chunk list)"
    by (auto simp: extract_chunks_def Let_def split: sum.splits)
  from c have "chunks = (if objs \<noteq> [] then object_parts (strip raw) objs 0 else [Text (strip raw)])"
    by (simp split: if_splits)
  with brace_scan_failed_surface [OF objs cand fails]
  show "\<exists>t x y. Text t \<in> set chunks \<and> t = x @ c @ y" by simp
qed

text \<open>
  A fenced block whose content does not parse, kept with its delimiters; a brace scan
  where the one \<open>Json\<close> chunk is the value of the span at \<open>[7, 14)\<close>; and a brace scan
  where the span at \<open>[2, 7)\<close> fails to parse and is part of the first \<open>Text\<close> chunk.
\<close>

theorem extract_failed_candidates_witness:
  "json_loads (strip ''see ```json {bad} ``` end'') = Inl JSONDecodeError
   \<and> finditer (strip ''see ```json {bad} ``` end'') = [(4, 21, ''{bad}'')]
   \<and> json_loads ''{bad}'' = Inl JSONDecodeError
   \<and> extract_chunks json_loads ''see ```json {bad} ``` end''
      = Inr [Text ''see'', Text ''```json {bad} ```'', Text ''end'']
   \<and> slice 4 21 (strip ''see ```json {bad} ``` end'') = ''```json {bad} ```''
   \<and> json_loads (strip ''prefix {\"a\":1}'') = Inl JSONDecodeError
   \<and> finditer (strip ''prefix {\"a\":1}'') = []
   \<and> extract_chunks json_loads ''prefix {\"a\":1}'' = Inr [Text ''prefix'', Json (JObj [(''a'', JInt 1)])]
   \<and> json_loads (slice 7 14 (strip ''prefix {\"a\":1}'')) = Inr (JObj [(''a'', JInt 1)])
   \<and> json_loads (strip ''x {bad} y {\"a\":1}'') = Inl JSONDecodeError
   \<and> finditer (strip ''x {bad} y {\"a\":1}'') = []
   \<and> brace_candidates (strip ''x {bad} y {\"a\":1}'') = [(2, 7, ''{bad}''), (10, 17, ''{\"a\":1}'')]
   \<and> extract_chunks json_loads ''x {bad} y {\"a\":1}''
      = Inr [Text ''x {bad} y'', Json (JObj [(''a'', JInt 1)])]
   \<and> ''{bad}'' = slice 2 7 (strip ''x {bad} y {\"a\":1}'')
   \<and> (\<exists>t x y. Text t \<in> set [Text ''x {bad} y'', Json (JObj [(''a'', JInt 1)])]
          \<and> t = x @ ''{bad}'' @ y)"
proof -
  let ?r = "''see ```json {bad} ``` end''"
  let ?q = "''prefix {\"a\":1}''"
  let ?p = "''x {bad} y {\"a\":1}''"
  have a: "json_loads (strip ?r) = Inl JSONDecodeError" by code_simp
  have b: "finditer (strip ?r) = [(4, 21, ''{bad}'')]" by code_simp
  have c: "json_loads ''{bad}'' = Inl JSONDecodeError" by code_simp
  have d: "extract_chunks json_loads ?r = Inr [Text ''see'', Text ''```json {bad} ```'', Text ''end'']"
    by code_simp
  have e: "slice 4 21 (strip ?r) = ''```json {bad} ```''" by code_simp
  have a': "json_loads (strip ?q) = Inl JSONDecodeError" by code_simp
  have b': "finditer (strip ?q) = []" by code_simp
  have d': "extract_chunks json_loads ?q = Inr [Text ''prefix'', Json (JObj [(''a'', JInt 1)])]"
    by code_simp
  have e': "json_loads (slice 7 14 (strip ?q)) = Inr (JObj [(''a'', JInt 1)])" by code_simp
  have a'': "json_loads (strip ?p) = Inl JSONDecodeError" by code_simp
  have b'': "finditer (strip ?p) = []" by code_simp
  have c'': "brace_candidates (strip ?p) = [(2, 7, ''{bad}''), (10, 17, ''{\"a\":1}'')]"
    by code_simp
  have d'': "extract_chunks json_loads ?p = Inr [Text ''x {bad} y'', Json (JObj [(''a'', JInt 1)])]"
    by code_simp
  note t = extract_failed_candidates [of json_loads ?r, OF a d]
  note t' = extract_failed_candidates [of json_loads ?q, OF a' d']
  note t'' = extract_failed_candidates [of json_loads ?p, OF a'' d'']
  have "Text (slice 4 21 (strip ?r)) \<in> set [Text ''see'', Text ''```json {bad} ```'', Text ''end'']"
    using t [THEN conjunct1, THEN spec, THEN spec, THEN spec, of 4 21 "''{bad}''"] b c by simp
  moreover have "\<exists>a b. json_loads (slice a b (strip ?q)) = Inr (JObj [(''a'', JInt 1)])"
    by (rule t' [THEN conjunct2, THEN conjunct1, rule_format, OF b']) simp
  moreover have "''{bad}'' = slice 2 7 (strip ?p)
      \<and> (\<exists>t x y. Text t \<in> set [Text ''x {bad} y'', Json (JObj [(''a'', JInt 1)])]
            \<and> t = x @ ''{bad}'' @ y)"
    by (rule t'' [THEN conjunct2, THEN conjunct2, rule_format, OF b'']) (simp add: c'' c)
  ultimately show ?thesis using a b c d e a' b' d' e' a'' b'' c'' d'' by blast
qed

text \<open>
  C4 as stated fails in its second half: in \<^verbatim>\<open>x {bad} y {"a":1}\<close> no fenced block matches,
  the brace span \<^verbatim>\<open>{bad}\<close> at \<open>[2, 7)\<close> fails to parse, and it surfaces as raw text in
  the first chunk and in the output.
\<close>

theorem extract_failed_candidates_counterexample:
  "json_loads (strip ''x {bad} y {\"a\":1}'') = Inl JSONDecodeError
   \<and> finditer (strip ''x {bad} y {\"a\":1}'') = []
   \<and> slice 2 7 (strip ''x {bad} y {\"a\":1}'') = ''{bad}''
   \<and> json_loads ''{bad}'' = Inl JSONDecodeError
   \<and> brace_scan json_loads (strip ''x {bad} y {\"a\":1}'') 0 (strip ''x {bad} y {\"a\":1}'') 0 (- 1)
      = Inr [(10, 17, JObj [(''a'', JInt 1)])]
   \<and> extract_chunks json_loads ''x {bad} y {\"a\":1}''
      = Inr [Text ''x {bad} y'', Json (JObj [(''a'', JInt 1)])]
   \<and> parse_mixed_json_and_text json_loads json_dumps ''x {bad} y {\"a\":1}''
      = Inr (''x {bad} y'' @ [CHR 0x0A, CHR 0x0A, CHR ''{'', CHR 0x0A] @ ''  \"a\": 1'' @ [CHR 0x0A, CHR ''}''])"
  by code_simp

text \<open>
  C8 (as amended). Whenever the extractor returns chunks, the input is a sequence of
  pieces, one for each chunk and in the same order, with nothing but whitespace before,
  between and after them. A \<open>Text\<close> chunk is its piece verbatim. A \<open>Json\<close> chunk is the
  value its piece decodes to or, when the piece is a fenced block, the value the content
  of the block decodes to: the fence delimiters and the \<^verbatim>\<open>json\<close> tag of a parsed block
  are covered by the piece and are not part of the chunk. If the decoder reads the
  serialised form of each \<open>Json\<close> chunk back to its value, the serialised form of every
  chunk holds the same content as the chunk.
\<close>

theorem extract_covers_input:
  assumes "extract_chunks loads raw = Inr chunks"
  shows "(\<exists>pieces. list_all2 (reads_as loads) chunks pieces \<and> covers pieces raw)
       \<and> ((\<forall>v. Json v \<in> set chunks \<longrightarrow> loads (dumps v) = Inr v)
            \<longrightarrow> (\<forall>c\<in>set chunks. reads_as loads c (render dumps c)))"
proof
  show "\<exists>pieces. list_all2 (reads_as loads) chunks pieces \<and> covers pieces raw"
    using assms by (rule extract_chunks_covers)
  show "(\<forall>v. Json v \<in> set chunks \<longrightarrow> loads (dumps v) = Inr v)
      \<longrightarrow> (\<forall>c\<in>set chunks. reads_as loads c (render dumps c))"
  proof (intro impI ballI)
    fix c
    assume h: "\<forall>v. Json v \<in> set chunks \<longrightarrow> loads (dumps v) = Inr v" and c: "c \<in> set chunks"
    show "reads_as loads c (render dumps c)"
    proof (cases c)
      case (Text t)
      then show ?thesis by simp
    next
      case (Json v)
      with h c show ?thesis by simp
    qed
  qed
qed

text \<open>
  The brace-scan example of the specification, \<^verbatim>\<open>prefix {"x": {"y": 1}} suffix\<close>: the three
  chunks read as the three pieces, and the pieces cover the input.
\<close>

theorem extract_covers_input_witness:
  "extract_chunks json_loads ''prefix {\"x\": {\"y\": 1}} suffix''
      = Inr [Text ''prefix'', Json (JObj [(''x'', JObj [(''y'', JInt 1)])]), Text ''suffix'']
   \<and> list_all2 (reads_as json_loads)
        [Text ''prefix'', Json (JObj [(''x'', JObj [(''y'', JInt 1)])]), Text ''suffix'']
        [''prefix'', ''{\"x\": {\"y\": 1}}'', ''suffix'']
   \<and> covers [''prefix'', ''{\"x\": {\"y\": 1}}'', ''suffix''] ''prefix {\"x\": {\"y\": 1}} suffix''
   \<and> json_loads (json_dumps (JObj [(''x'', JObj [(''y'', JInt 1)])]))
      = Inr (JObj [(''x'', JObj [(''y'', JInt 1)])])
   \<and> reads_as json_loads (Json (JObj [(''x'', JObj [(''y'', JInt 1)])]))
        (render json_dumps (Json (JObj [(''x'', JObj [(''y'', JInt 1)])])))"
proof -
  let ?raw = "''prefix {\"x\": {\"y\": 1}} suffix''"
  let ?v = "JObj [(''x'', JObj [(''y'', JInt 1)])]"
  have run: "extract_chunks json_loads ?raw = Inr [Text ''prefix'', Json ?v, Text ''suffix'']"
    by code_simp
  have rel: "list_all2 (reads_as json_loads) [Text ''prefix'', Json ?v, Text ''suffix'']
      [''prefix'', ''{\"x\": {\"y\": 1}}'', ''suffix'']"
    by code_simp
  have cov: "covers [''prefix'', ''{\"x\": {\"y\": 1}}'', ''suffix''] ?raw"
    by code_simp
  have reread: "json_loads (json_dumps ?v) = Inr ?v" by code_simp
  have "\<forall>v. Json v \<in> set [Text ''prefix'', Json ?v, Text ''suffix'']
      \<longrightarrow> json_loads (json_dumps v) = Inr v"
    using reread by simp
  with extract_covers_input [OF run, of json_dumps]
  have "\<forall>c\<in>set [Text ''prefix'', Json ?v, Text ''suffix'']. reads_as json_loads c (render json_dumps c)"
    by blast
  then have "reads_as json_loads (Json ?v) (render json_dumps (Json ?v))" by simp
  with run rel cov reread show ?thesis by blast
qed

text \<open>
  C8 as stated fails on the fenced-block example of the specification,
  \<^verbatim>\<open>hello ```json\n{"a":1}\n``` world\<close>. The three chunks are \<open>hello\<close>, the value and
  \<open>world\<close>. With all whitespace removed, the output is \<^verbatim>\<open>hello{"a":1}world\<close> and the
  input is \<^verbatim>\<open>hello```json{"a":1}```world\<close>; and the texts of the chunks do not cover the
  input, even with the source text of the value in place of its serialisation.
\<close>

theorem extract_covers_input_counterexample:
  "extract_chunks json_loads (''hello ```json'' @ [CHR 0x0A] @ ''{\"a\":1}'' @ [CHR 0x0A] @ ''``` world'')
      = Inr [Text ''hello'', Json (JObj [(''a'', JInt 1)]), Text ''world'']
   \<and> map_sum id squash
        (parse_mixed_json_and_text json_loads json_dumps
          (''hello ```json'' @ [CHR 0x0A] @ ''{\"a\":1}'' @ [CHR 0x0A] @ ''``` world''))
      = Inr ''hello{\"a\":1}world''
   \<and> squash (''hello ```json'' @ [CHR 0x0A] @ ''{\"a\":1}'' @ [CHR 0x0A] @ ''``` world'')
      = ''hello```json{\"a\":1}```world''
   \<and> \<not> covers (map (render json_dumps) [Text ''hello'', Json (JObj [(''a'', JInt 1)]), Text ''world''])
        (''hello ```json'' @ [CHR 0x0A] @ ''{\"a\":1}'' @ [CHR 0x0A] @ ''``` world'')
   \<and> \<not> covers [''hello'', ''{\"a\":1}'', ''world'']
        (''hello ```json'' @ [CHR 0x0A] @ ''{\"a\":1}'' @ [CHR 0x0A] @ ''``` world'')"
  by code_simp

end
